theory Spec2Isabelle
  imports Main "HOL-Library.Word"
begin

unbundle bit_operations_syntax

section \<open>Data model\<close>

type_synonym u8 = "8 word"
type_synonym u16 = "16 word"
type_synonym u32 = "32 word"
type_synonym u64 = "64 word"

text \<open>
  Modelled from the spec: the declarations of \<open>pc_eval.h\<close> (\<open>union point\<close>, the
  dimension identifiers, \<open>struct range_rule\<close>, \<open>struct prefix_rule\<close>, \<open>struct packet\<close>,
  \<open>RULE_MAX\<close>, \<open>PKT_MAX\<close>) are not part of the sources. The spec gives five fixed
  dimension slots SIP (32 bits), DIP (32), SPORT (16), DPORT (16), PROTO (8), a point value
  that is a scalar of 8, 16 or 32 bits, and the caps 1,048,576.

  A \<open>union point\<close> is read through the member that was written last, so a point carries the
  member as its tag: \<open>U32 v\<close> is a point written through \<open>.u32\<close>, and so on.
\<close>

datatype point = U32 u32 | U16 u16 | U8 u8

fun pt_val :: "point \<Rightarrow> nat" where
  "pt_val (U32 v) = unat v"
| "pt_val (U16 v) = unat v"
| "pt_val (U8 v) = unat v"

definition DIM_SIP :: nat where "DIM_SIP = 0"
definition DIM_DIP :: nat where "DIM_DIP = 1"
definition DIM_SPORT :: nat where "DIM_SPORT = 2"
definition DIM_DPORT :: nat where "DIM_DPORT = 3"
definition DIM_PROTO :: nat where "DIM_PROTO = 4"
definition DIM_MAX :: nat where "DIM_MAX = 5"

lemmas DIM_defs = DIM_SIP_def DIM_DIP_def DIM_SPORT_def DIM_DPORT_def DIM_PROTO_def DIM_MAX_def

text \<open>The width table \<open>W[d]\<close> of the spec.\<close>

definition W :: "nat \<Rightarrow> nat" where
  "W d = [32, 32, 16, 16, 8] ! d"

definition RULE_MAX :: nat where "RULE_MAX = 1048576"
definition PKT_MAX :: nat where "PKT_MAX = 1048576"

text \<open>
  A range rule holds \<open>dim[d][0]\<close> (low) and \<open>dim[d][1]\<close> (high) for each dimension and a
  priority; a prefix rule holds \<open>dim[d]\<close> and \<open>len[d]\<close>; a packet holds \<open>val[d]\<close> and the
  expected match. The lists are indexed by the dimension identifiers. The priority is kept
  as the 32-bit pattern the loaders compute; the prefix length as the number assigned.
\<close>

record range_rule =
  rdim :: "(point \<times> point) list"
  rpri :: u32

record prefix_rule =
  pdim :: "point list"
  plen :: "nat list"
  ppri :: u32

record packet =
  val :: "point list"
  match :: u32

section \<open>Input streams\<close>

text \<open>
  Every way out of the loaders through \<open>exit(-1)\<close> is a value of \<open>fatal\<close>, named after the
  diagnostic printed.
\<close>

datatype fatal =
    TooManyRules
  | IllegalRuleFormat
  | ProtocolMaskError u32
  | TooManyPackets
  | IllegalPacketFormat
  | DivisionByZero

text \<open>
  The format strings \<open>CB_RULE_FMT\<close>, \<open>PRFX_RULE_FMT\<close> and \<open>PKT_FMT\<close> belong to the missing
  header, so an opened file is described by what the successive \<open>fscanf\<close> calls of a loader
  find in it: \<open>entries\<close> are the records that are converted in full, one per call, in file
  order; \<open>unread\<close> tells whether input is left over once the last of them has been
  converted (text that the format neither consumes nor converts), in which case that call
  does not run into the end of the file. \<open>eof\<close> is the end-of-file indicator of the stream,
  clear after \<open>fopen\<close>.
\<close>

record 'f input_file =
  entries :: "'f list"
  unread :: bool

record 'f stream =
  pending :: "'f list"
  leftover :: bool
  eof :: bool

definition fopen :: "'f input_file \<Rightarrow> 'f stream" where
  "fopen rf = \<lparr>pending = entries rf, leftover = unread rf, eof = False\<rparr>"

definition feof :: "'f stream \<Rightarrow> bool" where
  "feof fp = eof fp"

text \<open>
  \<open>fscanf\<close> yields the converted fields when all conversions succeed, and \<open>None\<close> when the
  call returns another count (a matching failure, or \<open>EOF\<close> on an exhausted stream). The
  indicator is set by the call that runs into the end of the file.
\<close>

fun fscanf :: "'f stream \<Rightarrow> 'f option \<times> 'f stream" where
  "fscanf fp =
     (case pending fp of
        [] \<Rightarrow> (None, fp\<lparr>eof := (eof fp \<or> \<not> leftover fp)\<rparr>)
      | f # fs \<Rightarrow> (Some f, fp\<lparr>pending := fs, eof := (fs = [] \<and> \<not> leftover fp)\<rparr>))"

section \<open>The loading loop\<close>

text \<open>
  The three loaders run the same loop: while the indicator is clear, stop with the capacity
  diagnostic when the index has reached the cap, scan one record, stop with the format
  diagnostic when the scan fails, convert the record (which may itself be fatal) and store it
  at the index. The array filled so far is the list \<open>acc\<close>; \<open>num\<close> is its length.
\<close>

function load_loop ::
  "nat \<Rightarrow> fatal \<Rightarrow> fatal \<Rightarrow> ('f \<Rightarrow> fatal + 'r) \<Rightarrow> 'f stream \<Rightarrow> nat \<Rightarrow> 'r list \<Rightarrow> fatal + 'r list"
where
  "load_loop cap too_many illegal conv fp i acc =
     (if feof fp then Inr acc
      else if i \<ge> cap then Inl too_many
      else (case fscanf fp of
              (None, fp') \<Rightarrow> Inl illegal
            | (Some f, fp') \<Rightarrow>
                (case conv f of
                   Inl e \<Rightarrow> Inl e
                 | Inr r \<Rightarrow> load_loop cap too_many illegal conv fp' (i + 1) (acc @ [r]))))"
  by pat_completeness auto
termination
  by (relation "measure (\<lambda>(cap, too_many, illegal, conv, fp, i, acc). length (pending fp))")
     (auto split: list.splits)

declare load_loop.simps [simp del]

text \<open>
  The same loop over the list of pending records, with the indicator folded in: entered with
  the indicator clear, it is left normally exactly by the scan that converts the last record
  and runs into the end of the file.
\<close>

fun scan_list ::
  "nat \<Rightarrow> fatal \<Rightarrow> fatal \<Rightarrow> ('f \<Rightarrow> fatal + 'r) \<Rightarrow> 'f list \<Rightarrow> bool \<Rightarrow> nat \<Rightarrow> 'r list \<Rightarrow> fatal + 'r list"
where
  "scan_list cap too_many illegal conv [] lo i acc =
     (if i \<ge> cap then Inl too_many else Inl illegal)"
| "scan_list cap too_many illegal conv (f # fs) lo i acc =
     (if i \<ge> cap then Inl too_many
      else (case conv f of
              Inl e \<Rightarrow> Inl e
            | Inr r \<Rightarrow>
                if fs = [] \<and> \<not> lo then Inr (acc @ [r])
                else scan_list cap too_many illegal conv fs lo (i + 1) (acc @ [r])))"

section \<open>Rule and trace lines\<close>

text \<open>
  The values one \<open>fscanf\<close> call stores: seventeen \<open>uint32_t\<close> variables for a rule line
  (thirteen shared by both rule formats, four for the ports), six for a trace line.
\<close>

record rule_fields =
  src_ip_0 :: u32
  src_ip_1 :: u32
  src_ip_2 :: u32
  src_ip_3 :: u32
  src_ip_mask :: u32
  dst_ip_0 :: u32
  dst_ip_1 :: u32
  dst_ip_2 :: u32
  dst_ip_3 :: u32
  dst_ip_mask :: u32
  proto :: u32
  proto_mask :: u32
  rule_id :: u32

record cb_fields = rule_fields +
  src_port_begin :: u32
  src_port_end :: u32
  dst_port_begin :: u32
  dst_port_end :: u32

record prfx_fields = rule_fields +
  src_port :: u32
  src_port_mask :: u32
  dst_port :: u32
  dst_port_mask :: u32

record pkt_fields =
  pkt_sip :: u32
  pkt_dip :: u32
  pkt_sport :: u32
  pkt_dport :: u32
  pkt_proto :: u32
  pkt_match :: u32

text \<open>\<open>((a & 0xff) << 24) | ((b & 0xff) << 16) | ((c & 0xff) << 8) | (d & 0xff)\<close>\<close>

definition ip_addr :: "u32 \<Rightarrow> u32 \<Rightarrow> u32 \<Rightarrow> u32 \<Rightarrow> u32" where
  "ip_addr a b c d =
     push_bit 24 (a AND 0xff) OR push_bit 16 (b AND 0xff) OR push_bit 8 (c AND 0xff) OR (d AND 0xff)"

text \<open>\<open>m > 32 ? 32 : m\<close>\<close>

definition clamp_len :: "u32 \<Rightarrow> u32" where
  "clamp_len m = (if m > 32 then 32 else m)"

text \<open>\<open>(uint32_t)(~((1ULL << (32 - m)) - 1))\<close>, the shift done on 64 bits.\<close>

definition net_mask :: "u32 \<Rightarrow> u32" where
  "net_mask m = ucast (NOT (push_bit (unat (32 - m)) (1 :: u64) - 1))"

text \<open>A port range: both bounds cut to 16 bits, swapped when out of order.\<close>

definition port_range :: "u32 \<Rightarrow> u32 \<Rightarrow> point \<times> point" where
  "port_range b e =
     (let lo = (ucast (b AND 0xffff) :: u16);
          hi = (ucast (e AND 0xffff) :: u16)
      in if lo > hi then (U16 hi, U16 lo) else (U16 lo, U16 hi))"

text \<open>The body of the loop of \<open>load_cb_rules\<close>, after the scan.\<close>

definition cb_rule :: "cb_fields \<Rightarrow> fatal + range_rule" where
  "cb_rule f =
     (let src_ip = ip_addr (src_ip_0 f) (src_ip_1 f) (src_ip_2 f) (src_ip_3 f);
          src_mask = net_mask (clamp_len (src_ip_mask f));
          sip = (U32 (src_ip AND src_mask), U32 (src_ip OR NOT src_mask));
          dst_ip = ip_addr (dst_ip_0 f) (dst_ip_1 f) (dst_ip_2 f) (dst_ip_3 f);
          dst_mask = net_mask (clamp_len (dst_ip_mask f));
          dip = (U32 (dst_ip AND dst_mask), U32 (dst_ip OR NOT dst_mask));
          sport = port_range (src_port_begin f) (src_port_end f);
          dport = port_range (dst_port_begin f) (dst_port_end f)
      in if proto_mask f = 0xff then
           Inr \<lparr>rdim = [sip, dip, sport, dport,
                        (U8 (ucast (proto f AND 0xff)), U8 (ucast (proto f AND 0xff)))],
                rpri = rule_id f - 1\<rparr>
         else if proto_mask f = 0 then
           Inr \<lparr>rdim = [sip, dip, sport, dport, (U8 0, U8 0xff)], rpri = rule_id f - 1\<rparr>
         else Inl (ProtocolMaskError (proto_mask f)))"

text \<open>The body of the loop of \<open>load_prfx_rules\<close>, after the scan.\<close>

definition prfx_rule :: "prfx_fields \<Rightarrow> fatal + prefix_rule" where
  "prfx_rule f =
     (let src_ip = ip_addr (src_ip_0 f) (src_ip_1 f) (src_ip_2 f) (src_ip_3 f);
          src_len = clamp_len (src_ip_mask f);
          dst_ip = ip_addr (dst_ip_0 f) (dst_ip_1 f) (dst_ip_2 f) (dst_ip_3 f);
          dst_len = clamp_len (dst_ip_mask f);
          sip = U32 (src_ip AND net_mask src_len);
          dip = U32 (dst_ip AND net_mask dst_len);
          sport = U16 (ucast (src_port f AND 0xffff));
          dport = U16 (ucast (dst_port f AND 0xffff))
      in if proto_mask f = 0xff then
           Inr \<lparr>pdim = [sip, dip, sport, dport, U8 (ucast (proto f AND 0xff))],
                plen = [unat src_len, unat dst_len, unat (src_port_mask f),
                        unat (dst_port_mask f), 8],
                ppri = rule_id f - 1\<rparr>
         else if proto_mask f = 0 then
           Inr \<lparr>pdim = [sip, dip, sport, dport, U8 0],
                plen = [unat src_len, unat dst_len, unat (src_port_mask f),
                        unat (dst_port_mask f), 0],
                ppri = rule_id f - 1\<rparr>
         else Inl (ProtocolMaskError (proto_mask f)))"

text \<open>The body of the loop of \<open>load_trace\<close>, after the scan.\<close>

definition trace_packet :: "pkt_fields \<Rightarrow> packet" where
  "trace_packet f =
     \<lparr>val = [U32 (pkt_sip f), U32 (pkt_dip f),
             U16 (ucast (pkt_sport f AND 0xffff)), U16 (ucast (pkt_dport f AND 0xffff)),
             U8 (ucast (pkt_proto f AND 0xff))],
      match = pkt_match f - 1\<rparr>"

section \<open>The loaders\<close>

text \<open>
  Each loader opens its file, allocates the array and runs the loop from index 0; the model
  starts from a file that could be opened and an array that could be allocated.
\<close>

definition load_cb_rules :: "cb_fields input_file \<Rightarrow> fatal + range_rule list" where
  "load_cb_rules rf = load_loop RULE_MAX TooManyRules IllegalRuleFormat cb_rule (fopen rf) 0 []"

definition load_prfx_rules :: "prfx_fields input_file \<Rightarrow> fatal + prefix_rule list" where
  "load_prfx_rules rf =
     load_loop RULE_MAX TooManyRules IllegalRuleFormat prfx_rule (fopen rf) 0 []"

definition load_trace :: "pkt_fields input_file \<Rightarrow> fatal + packet list" where
  "load_trace tf =
     load_loop PKT_MAX TooManyPackets IllegalPacketFormat (\<lambda>f. Inr (trace_packet f))
       (fopen tf) 0 []"


section \<open>Timing report of the driver\<close>

text \<open>
  \<open>struct timeval\<close> holds two signed 64-bit fields; \<open>make_timediff\<close> converts them to
  \<open>unsigned long long\<close> and computes modulo \<open>2^64\<close>.
\<close>

record timeval =
  tv_sec :: u64
  tv_usec :: u64

definition make_timediff :: "timeval \<Rightarrow> timeval \<Rightarrow> u64" where
  "make_timediff start stop =
     (1000000 * tv_sec stop + tv_usec stop) - (1000000 * tv_sec start + tv_usec start)"

text \<open>\<open>t.num\<close>, the number of packets loaded, as the \<open>int\<close> the loader counts in.\<close>

definition trace_num :: "packet list \<Rightarrow> u32" where
  "trace_num pkts = of_nat (length pkts)"

text \<open>
  \<open>(t.num * 1000000ULL) / timediff\<close>, the argument of the last \<open>printf\<close> of \<open>main\<close>: the
  count is converted to 64 bits, and a zero divisor stops the process. The number printed
  through \<open>%lld\<close> is the signed reading of the quotient.
\<close>

definition searching_speed :: "u32 \<Rightarrow> u64 \<Rightarrow> fatal + u64" where
  "searching_speed num timediff =
     (if timediff = 0 then Inl DivisionByZero else Inr ((scast num * 1000000) div timediff))"

section \<open>Matching\<close>

text \<open>
  Modelled from the spec: the engines (\<open>hs.c\<close>, \<open>tss.c\<close>) are not part of the sources; only
  the declarations of \<open>hs.h\<close> and the dispatch table of the driver are. The definitions of
  this section and of the two sections after it follow sections 3, 4.2 and 4.3 of the spec and
  its glossary: a rule matches a packet when each of its per-dimension ranges (prefixes)
  contains the value of the packet in that dimension; a priority is the 0-based rule id, the
  smaller value taking precedence (read as a signed number, as the spec allows a priority of
  -1).
\<close>

definition r_low :: "range_rule \<Rightarrow> nat \<Rightarrow> nat" where
  "r_low r d = pt_val (fst (rdim r ! d))"

definition r_high :: "range_rule \<Rightarrow> nat \<Rightarrow> nat" where
  "r_high r d = pt_val (snd (rdim r ! d))"

definition pkt_val :: "packet \<Rightarrow> nat \<Rightarrow> nat" where
  "pkt_val p d = pt_val (val p ! d)"

definition r_priority :: "range_rule \<Rightarrow> int" where
  "r_priority r = sint (rpri r)"

definition p_priority :: "prefix_rule \<Rightarrow> int" where
  "p_priority r = sint (ppri r)"

definition r_matches :: "range_rule \<Rightarrow> packet \<Rightarrow> bool" where
  "r_matches r p = list_all (\<lambda>d. r_low r d \<le> pkt_val p d \<and> pkt_val p d \<le> r_high r d) [0..<DIM_MAX]"

text \<open>
  Modelled from the spec: \<open>value & mask(len)\<close> in a dimension of width \<open>w\<close> keeps the \<open>len\<close>
  high bits and clears the \<open>w - len\<close> low bits.
\<close>

definition masked :: "nat \<Rightarrow> nat \<Rightarrow> nat \<Rightarrow> nat" where
  "masked w l v = (v div 2 ^ (w - l)) * 2 ^ (w - l)"

definition p_matches :: "prefix_rule \<Rightarrow> packet \<Rightarrow> bool" where
  "p_matches r p =
     list_all (\<lambda>d. masked (W d) (plen r ! d) (pt_val (pdim r ! d)) =
                   masked (W d) (plen r ! d) (pkt_val p d)) [0..<DIM_MAX]"

section \<open>HyperSplit\<close>

text \<open>
  Modelled from the spec (section 4.2; \<open>hs.c\<close> is missing). A node holds the split dimension
  \<open>d2s\<close>, the threshold, its depth and two children; a leaf holds its rules sorted by ascending
  priority. A cell is a low/high pair per dimension.
\<close>

datatype hs_node =
    Leaf "range_rule list"
  | Node nat nat nat hs_node hs_node

definition BINTH :: nat where "BINTH = 8"

definition full_cell :: "(nat \<times> nat) list" where
  "full_cell = map (\<lambda>d. (0, 2 ^ W d - 1)) [0..<DIM_MAX]"

text \<open>The distinct range endpoints of the rules in dimension \<open>d\<close>, clipped to the cell.\<close>

definition clip :: "nat \<times> nat \<Rightarrow> nat \<Rightarrow> nat" where
  "clip c v = max (fst c) (min (snd c) v)"

definition candidates :: "range_rule list \<Rightarrow> nat \<Rightarrow> (nat \<times> nat) list \<Rightarrow> nat list" where
  "candidates S d C = remdups (map (clip (C ! d)) (concat (map (\<lambda>r. [r_low r d, r_high r d]) S)))"

text \<open>
  The sum of the rule counts of the two children. The spec divides it by \<open>|S|\<close>, the same
  number for every candidate of a node, so the sums are compared.
\<close>

definition cost :: "range_rule list \<Rightarrow> nat \<Rightarrow> nat \<Rightarrow> nat" where
  "cost S d t = length (filter (\<lambda>r. r_low r d \<le> t) S) + length (filter (\<lambda>r. r_high r d > t) S)"

text \<open>The smaller cost wins; ties go to the lower dimension, then to the lower threshold.\<close>

definition better_split :: "nat \<times> nat \<times> nat \<Rightarrow> nat \<times> nat \<times> nat \<Rightarrow> nat \<times> nat \<times> nat" where
  "better_split a b =
     (case (a, b) of
        ((ca, da, ta), (cb, db, tb)) \<Rightarrow>
          if ca < cb \<or> (ca = cb \<and> (da < db \<or> (da = db \<and> ta < tb))) then a else b)"

definition best_split :: "range_rule list \<Rightarrow> (nat \<times> nat) list \<Rightarrow> (nat \<times> nat \<times> nat) option" where
  "best_split S C =
     (case concat (map (\<lambda>d. map (\<lambda>t. (cost S d t, d, t)) (candidates S d C)) [0..<DIM_MAX]) of
        [] \<Rightarrow> None
      | c # cs \<Rightarrow> Some (fold better_split cs c))"

text \<open>
  The recursive build. A node becomes a leaf when it has at most \<open>BINTH\<close> rules, when its depth
  exceeds the maximum, or when the best split leaves all rules on both sides.
\<close>

function hs_build_node ::
  "nat \<Rightarrow> nat \<Rightarrow> range_rule list \<Rightarrow> (nat \<times> nat) list \<Rightarrow> hs_node"
where
  "hs_build_node max_depth depth S C =
     (if length S \<le> BINTH \<or> depth > max_depth then Leaf (sort_key r_priority S)
      else (case best_split S C of
              None \<Rightarrow> Leaf (sort_key r_priority S)
            | Some s \<Rightarrow>
                if length (filter (\<lambda>r. r_low r (fst (snd s)) \<le> snd (snd s)) S) = length S \<and>
                   length (filter (\<lambda>r. r_high r (fst (snd s)) > snd (snd s)) S) = length S
                then Leaf (sort_key r_priority S)
                else Node (fst (snd s)) (snd (snd s)) depth
                       (hs_build_node max_depth (depth + 1)
                          (filter (\<lambda>r. r_low r (fst (snd s)) \<le> snd (snd s)) S)
                          (C[fst (snd s) := (fst (C ! fst (snd s)), snd (snd s))]))
                       (hs_build_node max_depth (depth + 1)
                          (filter (\<lambda>r. r_high r (fst (snd s)) > snd (snd s)) S)
                          (C[fst (snd s) := (snd (snd s) + 1, snd (C ! fst (snd s)))]))))"
  by pat_completeness auto
termination
  by (relation "measure (\<lambda>(max_depth, depth, S, C). Suc max_depth - depth)") auto

declare hs_build_node.simps [simp del]

definition hs_build :: "nat \<Rightarrow> range_rule list \<Rightarrow> hs_node" where
  "hs_build max_depth rs = hs_build_node max_depth 0 rs full_cell"

text \<open>
  The search of one packet: descend to the left child when the value of the packet in the
  split dimension is at most the threshold, else to the right; at a leaf return the first rule,
  in priority order, that matches.
\<close>

fun hs_lookup :: "hs_node \<Rightarrow> packet \<Rightarrow> range_rule option" where
  "hs_lookup (Leaf rs) p = find (\<lambda>r. r_matches r p) rs"
| "hs_lookup (Node d t depth l r) p = (if pkt_val p d \<le> t then hs_lookup l p else hs_lookup r p)"

section \<open>Tuple space search\<close>

text \<open>
  Modelled from the spec (section 4.3; \<open>tss.c\<close> is missing). The index is a list of tuple
  buckets; a bucket is the vector of prefix lengths together with a hash table, from hash
  values to chains sorted by ascending priority. The hash function \<open>h\<close> over the masked key is
  a parameter.
\<close>

type_synonym tss_bucket = "nat list \<times> (nat \<Rightarrow> prefix_rule list)"

definition masked_key :: "nat list \<Rightarrow> point list \<Rightarrow> nat list" where
  "masked_key L vs = map (\<lambda>d. masked (W d) (L ! d) (pt_val (vs ! d))) [0..<DIM_MAX]"

text \<open>
  Insertion locates the bucket of the rule's length vector, or creates it at the end, and
  inserts the rule into the chain of its hash value, keeping the chain sorted.
\<close>

fun tss_insert :: "(nat list \<Rightarrow> nat) \<Rightarrow> prefix_rule \<Rightarrow> tss_bucket list \<Rightarrow> tss_bucket list" where
  "tss_insert h r [] = [(plen r, (\<lambda>_. [])(h (masked_key (plen r) (pdim r)) := [r]))]"
| "tss_insert h r ((L, tbl) # bs) =
     (if L = plen r then
        (L, tbl(h (masked_key L (pdim r)) :=
                  insort_key p_priority r (tbl (h (masked_key L (pdim r)))))) # bs
      else (L, tbl) # tss_insert h r bs)"

definition tss_build :: "(nat list \<Rightarrow> nat) \<Rightarrow> prefix_rule list \<Rightarrow> tss_bucket list" where
  "tss_build h rs = fold (tss_insert h) rs []"


text \<open>
  The search of one packet probes every bucket: the masked key of the packet selects a chain,
  whose first entry with an equal masked key is the match of the bucket; the match of smallest
  priority over all buckets is returned.
\<close>

definition bucket_lookup :: "(nat list \<Rightarrow> nat) \<Rightarrow> tss_bucket \<Rightarrow> packet \<Rightarrow> prefix_rule option" where
  "bucket_lookup h b p =
     find (\<lambda>r. masked_key (fst b) (pdim r) = masked_key (fst b) (val p))
       (snd b (h (masked_key (fst b) (val p))))"

definition better :: "prefix_rule option \<Rightarrow> prefix_rule option \<Rightarrow> prefix_rule option" where
  "better best found =
     (case found of
        None \<Rightarrow> best
      | Some r \<Rightarrow>
          (case best of
             None \<Rightarrow> Some r
           | Some b \<Rightarrow> if p_priority r < p_priority b then Some r else Some b))"

definition tss_lookup :: "(nat list \<Rightarrow> nat) \<Rightarrow> tss_bucket list \<Rightarrow> packet \<Rightarrow> prefix_rule option" where
  "tss_lookup h idx p = fold (\<lambda>b best. better best (bucket_lookup h b p)) idx None"

text \<open>
  What the index holds, and the invariant that insertion keeps: in the bucket of a length
  vector every rule has that vector and sits in the chain of the hash of its masked key, and
  every chain is sorted by priority. \<open>p_best A p res\<close> says that \<open>res\<close> is a match of \<open>p\<close> of
  smallest priority among the rules \<open>A\<close>, or no match when there is none.
\<close>

definition bucket_rules :: "tss_bucket \<Rightarrow> prefix_rule set" where
  "bucket_rules b = {r. \<exists>hv. r \<in> set (snd b hv)}"

definition tss_rules :: "tss_bucket list \<Rightarrow> prefix_rule set" where
  "tss_rules idx = (\<Union>b \<in> set idx. bucket_rules b)"

definition bucket_inv :: "(nat list \<Rightarrow> nat) \<Rightarrow> tss_bucket \<Rightarrow> bool" where
  "bucket_inv h b \<longleftrightarrow>
     (\<forall>hv. sorted (map p_priority (snd b hv)) \<and>
           (\<forall>r \<in> set (snd b hv). plen r = fst b \<and> h (masked_key (fst b) (pdim r)) = hv))"

definition tss_inv :: "(nat list \<Rightarrow> nat) \<Rightarrow> tss_bucket list \<Rightarrow> bool" where
  "tss_inv h idx \<longleftrightarrow> (\<forall>b \<in> set idx. bucket_inv h b)"

definition p_best :: "prefix_rule set \<Rightarrow> packet \<Rightarrow> prefix_rule option \<Rightarrow> bool" where
  "p_best A p res \<longleftrightarrow>
     (res = None \<longleftrightarrow> \<not> (\<exists>r \<in> A. p_matches r p)) \<and>
     (\<forall>r. res = Some r \<longrightarrow>
          r \<in> A \<and> p_matches r p \<and> (\<forall>r' \<in> A. p_matches r' p \<longrightarrow> p_priority r \<le> p_priority r'))"



section \<open>Concrete inputs\<close>

definition cb_line_1 :: cb_fields where
  "cb_line_1 = \<lparr>src_ip_0 = 10, src_ip_1 = 1, src_ip_2 = 2, src_ip_3 = 3, src_ip_mask = 8,
     dst_ip_0 = 192, dst_ip_1 = 168, dst_ip_2 = 0, dst_ip_3 = 1, dst_ip_mask = 0,
     proto = 6, proto_mask = 0xff, rule_id = 1,
     src_port_begin = 2000, src_port_end = 1000, dst_port_begin = 0, dst_port_end = 65535\<rparr>"

definition cb_line_2 :: cb_fields where
  "cb_line_2 = \<lparr>src_ip_0 = 10, src_ip_1 = 1, src_ip_2 = 2, src_ip_3 = 3, src_ip_mask = 40,
     dst_ip_0 = 0, dst_ip_1 = 0, dst_ip_2 = 0, dst_ip_3 = 0, dst_ip_mask = 0,
     proto = 17, proto_mask = 0, rule_id = 2,
     src_port_begin = 0, src_port_end = 65535, dst_port_begin = 70000, dst_port_end = 80,
     \<dots> = ()\<rparr>"

definition cb_line_bad :: cb_fields where
  "cb_line_bad = \<lparr>src_ip_0 = 0, src_ip_1 = 0, src_ip_2 = 0, src_ip_3 = 0, src_ip_mask = 0,
     dst_ip_0 = 0, dst_ip_1 = 0, dst_ip_2 = 0, dst_ip_3 = 0, dst_ip_mask = 0,
     proto = 6, proto_mask = 0x0f, rule_id = 3,
     src_port_begin = 0, src_port_end = 65535, dst_port_begin = 0, dst_port_end = 65535\<rparr>"

definition cb_file_1 :: "cb_fields input_file" where
  "cb_file_1 = \<lparr>entries = [cb_line_1, cb_line_2], unread = False\<rparr>"

definition cb_rules_1 :: "range_rule list" where
  "cb_rules_1 =
     [\<lparr>rdim = [(U32 0x0A000000, U32 0x0AFFFFFF), (U32 0, U32 0xFFFFFFFF),
               (U16 1000, U16 2000), (U16 0, U16 65535), (U8 6, U8 6)], rpri = 0\<rparr>,
      \<lparr>rdim = [(U32 0x0A010203, U32 0x0A010203), (U32 0, U32 0xFFFFFFFF),
               (U16 0, U16 65535), (U16 80, U16 4464), (U8 0, U8 255)], rpri = 1\<rparr>]"

definition cb_file_bad :: "cb_fields input_file" where
  "cb_file_bad = \<lparr>entries = [cb_line_1, cb_line_bad, cb_line_2], unread = False\<rparr>"

definition prfx_line_1 :: prfx_fields where
  "prfx_line_1 = \<lparr>src_ip_0 = 10, src_ip_1 = 1, src_ip_2 = 2, src_ip_3 = 3, src_ip_mask = 8,
     dst_ip_0 = 0, dst_ip_1 = 0, dst_ip_2 = 0, dst_ip_3 = 0, dst_ip_mask = 0,
     proto = 6, proto_mask = 0xff, rule_id = 1,
     src_port = 80, src_port_mask = 16, dst_port = 0, dst_port_mask = 0\<rparr>"

definition prfx_line_2 :: prfx_fields where
  "prfx_line_2 = \<lparr>src_ip_0 = 10, src_ip_1 = 1, src_ip_2 = 2, src_ip_3 = 3, src_ip_mask = 33,
     dst_ip_0 = 192, dst_ip_1 = 168, dst_ip_2 = 7, dst_ip_3 = 9, dst_ip_mask = 16,
     proto = 17, proto_mask = 0, rule_id = 2,
     src_port = 0, src_port_mask = 0, dst_port = 1024, dst_port_mask = 6\<rparr>"

definition prfx_line_bad :: prfx_fields where
  "prfx_line_bad = \<lparr>src_ip_0 = 0, src_ip_1 = 0, src_ip_2 = 0, src_ip_3 = 0, src_ip_mask = 0,
     dst_ip_0 = 0, dst_ip_1 = 0, dst_ip_2 = 0, dst_ip_3 = 0, dst_ip_mask = 0,
     proto = 6, proto_mask = 0x80, rule_id = 3,
     src_port = 0, src_port_mask = 0, dst_port = 0, dst_port_mask = 0\<rparr>"

definition prfx_file_1 :: "prfx_fields input_file" where
  "prfx_file_1 = \<lparr>entries = [prfx_line_1, prfx_line_2], unread = False\<rparr>"

definition prfx_file_bad :: "prfx_fields input_file" where
  "prfx_file_bad = \<lparr>entries = [prfx_line_bad, prfx_line_1], unread = False\<rparr>"

definition prfx_rules_1 :: "prefix_rule list" where
  "prfx_rules_1 =
     [\<lparr>pdim = [U32 0x0A000000, U32 0, U16 80, U16 0, U8 6], plen = [8, 0, 16, 0, 8], ppri = 0\<rparr>,
      \<lparr>pdim = [U32 0x0A010203, U32 0xC0A80000, U16 0, U16 1024, U8 0],
        plen = [32, 16, 0, 6, 0], ppri = 1\<rparr>]"

definition pkt_line_1 :: pkt_fields where
  "pkt_line_1 = \<lparr>pkt_sip = 0x0A010203, pkt_dip = 0xC0A80001, pkt_sport = 70000,
     pkt_dport = 80, pkt_proto = 262, pkt_match = 1\<rparr>"

definition trace_file_1 :: "pkt_fields input_file" where
  "trace_file_1 = \<lparr>entries = [pkt_line_1], unread = False\<rparr>"

definition trace_1 :: "packet list" where
  "trace_1 = [\<lparr>val = [U32 0x0A010203, U32 0xC0A80001, U16 4464, U16 80, U8 6], match = 0\<rparr>]"

definition cb_file_full :: "cb_fields input_file" where
  "cb_file_full = \<lparr>entries = replicate 1048576 cb_line_1, unread = True\<rparr>"

definition cb_file_over :: "cb_fields input_file" where
  "cb_file_over = \<lparr>entries = replicate 1048577 cb_line_1, unread = False\<rparr>"

definition trace_file_over :: "pkt_fields input_file" where
  "trace_file_over = \<lparr>entries = replicate 1048577 pkt_line_1, unread = False\<rparr>"

definition trace_file_full :: "pkt_fields input_file" where
  "trace_file_full = \<lparr>entries = replicate 1048576 pkt_line_1, unread = True\<rparr>"

definition cb_file_tail :: "cb_fields input_file" where
  "cb_file_tail = \<lparr>entries = [cb_line_1, cb_line_2], unread = True\<rparr>"

definition prfx_file_tail :: "prfx_fields input_file" where
  "prfx_file_tail = \<lparr>entries = [prfx_line_1, prfx_line_2], unread = True\<rparr>"

definition trace_file_tail :: "pkt_fields input_file" where
  "trace_file_tail = \<lparr>entries = [pkt_line_1], unread = True\<rparr>"

definition hs_rule_a :: range_rule where
  "hs_rule_a = \<lparr>rdim = [(U32 0, U32 0xFFFFFFFF), (U32 0, U32 0xFFFFFFFF), (U16 1000, U16 2000),
                        (U16 0, U16 65535), (U8 0, U8 255)], rpri = 0\<rparr>"

definition hs_rule_b :: range_rule where
  "hs_rule_b = \<lparr>rdim = [(U32 0, U32 0xFFFFFFFF), (U32 0, U32 0xFFFFFFFF), (U16 1500, U16 2500),
                        (U16 0, U16 65535), (U8 0, U8 255)], rpri = 1\<rparr>"

definition pkt_with_sport :: "u16 \<Rightarrow> packet" where
  "pkt_with_sport v = \<lparr>val = [U32 0x0A010203, U32 0xC0A80001, U16 v, U16 80, U8 6], match = 0\<rparr>"

definition pkt_with_proto :: "u8 \<Rightarrow> packet" where
  "pkt_with_proto v = \<lparr>val = [U32 0x0A010203, U32 0xC0A80001, U16 4464, U16 80, U8 v], match = 0\<rparr>"

definition tss_rule_a :: prefix_rule where
  "tss_rule_a = \<lparr>pdim = [U32 0, U32 0, U16 0, U16 0, U8 6], plen = [0, 0, 0, 0, 8], ppri = 0\<rparr>"

definition tss_rule_b :: prefix_rule where
  "tss_rule_b = \<lparr>pdim = [U32 0, U32 0, U16 0, U16 0, U8 0], plen = [0, 0, 0, 0, 0], ppri = 1\<rparr>"

definition tss_rule_new :: prefix_rule where
  "tss_rule_new = \<lparr>pdim = [U32 0, U32 0, U16 0, U16 0, U8 6], plen = [0, 0, 0, 0, 8], ppri = 0 - 1\<rparr>"

definition tss_rule_udp :: prefix_rule where
  "tss_rule_udp = \<lparr>pdim = [U32 0, U32 0, U16 0, U16 0, U8 17], plen = [0, 0, 0, 0, 8], ppri = 5\<rparr>"

definition tss_rule_any :: prefix_rule where
  "tss_rule_any = \<lparr>pdim = [U32 0, U32 0, U16 0, U16 0, U8 0], plen = [0, 0, 0, 0, 0], ppri = 0\<rparr>"

definition example_hash :: "nat list \<Rightarrow> nat" where
  "example_hash k = sum_list k mod 16"

section \<open>Properties\<close>

subsection \<open>The loading loop\<close>

lemma load_loop_scan_list:
  "\<not> eof fp \<Longrightarrow>
   load_loop cap tm il conv fp i acc = scan_list cap tm il conv (pending fp) (leftover fp) i acc"
proof (induction cap tm il conv fp i acc rule: load_loop.induct)
  case (1 cap tm il conv fp i acc)
  show ?case
  proof (cases "pending fp")
    case Nil
    with 1(2) show ?thesis by (simp add: load_loop.simps [of _ _ _ _ fp] feof_def)
  next
    case (Cons f fs)
    show ?thesis
    proof (cases "conv f")
      case (Inl e)
      with Cons 1(2) show ?thesis by (simp add: load_loop.simps [of _ _ _ _ fp] feof_def)
    next
      case (Inr r)
      show ?thesis
      proof (cases "fs = [] \<and> \<not> leftover fp")
        case True
        with Cons Inr 1(2) show ?thesis
          by (simp add: load_loop.simps [of _ _ _ _ fp] load_loop.simps [of _ _ _ _ "fp\<lparr>pending := [], eof := True\<rparr>"] feof_def)
      next
        case False
        with Cons Inr 1 show ?thesis
          by (auto simp add: load_loop.simps [of _ _ _ _ fp] feof_def)
      qed
    qed
  qed
qed

lemma scan_list_Inr:
  "scan_list cap tm il conv fs lo i acc = Inr rs \<Longrightarrow>
   \<exists>rs'. rs = acc @ rs' \<and> map conv fs = map Inr rs' \<and> \<not> lo \<and> fs \<noteq> [] \<and> i + length fs \<le> cap"
proof (induction fs arbitrary: i acc)
  case Nil
  then show ?case by (simp split: if_splits)
next
  case (Cons f fs)
  then show ?case
    by (fastforce split: if_splits sum.splits)
qed

lemma scan_list_ok:
  "map conv fs = map Inr rs' \<Longrightarrow> fs \<noteq> [] \<Longrightarrow> \<not> lo \<Longrightarrow> i + length fs \<le> cap \<Longrightarrow>
   scan_list cap tm il conv fs lo i acc = Inr (acc @ rs')"
proof (induction fs arbitrary: i acc rs')
  case Nil
  then show ?case by simp
next
  case (Cons f fs)
  then show ?case
    by (cases rs') (auto split: if_splits sum.splits)
qed

lemma scan_list_too_many:
  "\<forall>j < cap - i. \<not> isl (conv (fs ! j)) \<Longrightarrow> i \<le> cap \<Longrightarrow>
   cap < i + length fs \<or> (cap = i + length fs \<and> lo) \<Longrightarrow>
   scan_list cap tm il conv fs lo i acc = Inl tm"
proof (induction fs arbitrary: i acc)
  case Nil
  then show ?case by auto
next
  case (Cons f fs)
  show ?case
  proof (cases "cap \<le> i")
    case True
    then show ?thesis by simp
  next
    case False
    then have "0 < cap - i" by simp
    with Cons.prems(1) have "\<not> isl (conv ((f # fs) ! 0))" by blast
    then obtain r where r: "conv f = Inr r" by (cases "conv f") auto
    have a: "\<forall>j < cap - (i + 1). \<not> isl (conv (fs ! j))"
    proof (intro allI impI)
      fix j assume "j < cap - (i + 1)"
      then have "Suc j < cap - i" by simp
      with Cons.prems(1) have "\<not> isl (conv ((f # fs) ! Suc j))" by blast
      then show "\<not> isl (conv (fs ! j))" by simp
    qed
    have b: "i + 1 \<le> cap" using False by simp
    have c: "cap < (i + 1) + length fs \<or> (cap = (i + 1) + length fs \<and> lo)"
      using Cons.prems(3) by auto
    have d: "\<not> (fs = [] \<and> \<not> lo)" using Cons.prems(3) False by auto
    from Cons.IH [OF a b c] r False d show ?thesis by auto
  qed
qed

lemma scan_list_illegal:
  "\<forall>f \<in> set fs. \<not> isl (conv f) \<Longrightarrow> i + length fs < cap \<Longrightarrow> lo \<or> fs = [] \<Longrightarrow>
   scan_list cap tm il conv fs lo i acc = Inl il"
proof (induction fs arbitrary: i acc)
  case Nil
  then show ?case by simp
next
  case (Cons f fs)
  then obtain r where r: "conv f = Inr r" by (cases "conv f") auto
  from Cons.prems have lo: lo by simp
  have "scan_list cap tm il conv fs lo (i + 1) (acc @ [r]) = Inl il"
    using Cons.prems lo by (intro Cons.IH) auto
  with r lo Cons.prems(2) show ?case by simp
qed

lemma scan_list_not_too_many:
  "\<forall>f e. conv f = Inl e \<longrightarrow> e \<noteq> tm \<Longrightarrow> il \<noteq> tm \<Longrightarrow>
   i + length fs < cap \<or> (i + length fs = cap \<and> \<not> lo \<and> fs \<noteq> []) \<Longrightarrow>
   scan_list cap tm il conv fs lo i acc \<noteq> Inl tm"
proof (induction fs arbitrary: i acc)
  case Nil
  then show ?case by auto
next
  case (Cons f fs)
  show ?case
  proof (cases "conv f")
    case (Inl e)
    with Cons.prems show ?thesis by auto
  next
    case (Inr r)
    show ?thesis
    proof (cases "fs = [] \<and> \<not> lo")
      case True
      with Inr Cons.prems show ?thesis by auto
    next
      case False
      have "scan_list cap tm il conv fs lo (i + 1) (acc @ [r]) \<noteq> Inl tm"
        using Cons.prems False by (intro Cons.IH) auto
      with Inr False Cons.prems show ?thesis by auto
    qed
  qed
qed

lemma scan_list_first_error:
  "k < length fs \<Longrightarrow> i + k < cap \<Longrightarrow> \<forall>j < k. \<not> isl (conv (fs ! j)) \<Longrightarrow> conv (fs ! k) = Inl e \<Longrightarrow>
   scan_list cap tm il conv fs lo i acc = Inl e"
proof (induction fs arbitrary: i acc k)
  case Nil
  then show ?case by simp
next
  case (Cons f fs)
  show ?case
  proof (cases k)
    case 0
    with Cons.prems show ?thesis by simp
  next
    case (Suc k')
    with Cons.prems(3) have "\<not> isl (conv ((f # fs) ! 0))" by blast
    then obtain r where r: "conv f = Inr r" by (cases "conv f") auto
    have a: "\<forall>j < k'. \<not> isl (conv (fs ! j))"
    proof (intro allI impI)
      fix j assume "j < k'"
      then have "Suc j < k" using Suc by simp
      with Cons.prems(3) have "\<not> isl (conv ((f # fs) ! Suc j))" by blast
      then show "\<not> isl (conv (fs ! j))" by simp
    qed
    have "scan_list cap tm il conv fs lo (i + 1) (acc @ [r]) = Inl e"
      using Cons.prems Suc a by (intro Cons.IH [of k']) auto
    moreover have "fs \<noteq> []" using Cons.prems(1) Suc by auto
    ultimately show ?thesis using r Cons.prems(2) by simp
  qed
qed

lemma scan_list_over_cap:
  "cap < i + length fs \<Longrightarrow> \<exists>e. scan_list cap tm il conv fs lo i acc = Inl e"
proof (induction fs arbitrary: i acc)
  case Nil
  then show ?case by simp
next
  case (Cons f fs)
  show ?case
  proof (cases "cap \<le> i")
    case True
    then show ?thesis by simp
  next
    case False
    show ?thesis
    proof (cases "conv f")
      case (Inl e)
      with False show ?thesis by simp
    next
      case (Inr r)
      have "fs \<noteq> []" using Cons.prems False by auto
      moreover have "\<exists>e. scan_list cap tm il conv fs lo (i + 1) (acc @ [r]) = Inl e"
        using Cons.prems by (intro Cons.IH) auto
      ultimately show ?thesis using Inr False by simp
    qed
  qed
qed

subsection \<open>Line conversions\<close>

lemma load_loop_fopen:
  "load_loop cap tm il conv (fopen rf) 0 [] = scan_list cap tm il conv (entries rf) (unread rf) 0 []"
  by (simp add: load_loop_scan_list fopen_def)

lemma load_loop_Inr:
  assumes "load_loop cap tm il conv (fopen rf) 0 [] = Inr rs"
  shows "map conv (entries rf) = map Inr rs" and "\<not> unread rf" and "entries rf \<noteq> []"
    and "length rs \<le> cap" and "length rs = length (entries rf)"
proof -
  from assms have "scan_list cap tm il conv (entries rf) (unread rf) 0 [] = Inr rs"
    by (simp add: load_loop_fopen)
  from scan_list_Inr [OF this]
  have a: "map conv (entries rf) = map Inr rs \<and> \<not> unread rf \<and> entries rf \<noteq> [] \<and> length (entries rf) \<le> cap"
    by auto
  then show "map conv (entries rf) = map Inr rs" and "\<not> unread rf" and "entries rf \<noteq> []" by simp_all
  from a have "map conv (entries rf) = map Inr rs" by simp
  from map_eq_imp_length_eq [OF this] show "length rs = length (entries rf)" by simp
  with a show "length rs \<le> cap" by simp
qed

lemma load_loop_nth:
  assumes "load_loop cap tm il conv (fopen rf) 0 [] = Inr rs" and "k < length rs"
  shows "conv (entries rf ! k) = Inr (rs ! k)"
proof -
  have m: "map conv (entries rf) = map Inr rs" and l: "length rs = length (entries rf)"
    using load_loop_Inr [OF assms(1)] by simp_all
  have "map conv (entries rf) ! k = conv (entries rf ! k)" using assms(2) l by simp
  then show ?thesis using m assms(2) by simp
qed

lemma clamp_len_le: "clamp_len m \<le> 32"
  by (simp add: clamp_len_def not_less)

lemma unat_clamp_len: "unat (clamp_len m) = min (unat m) 32"
  by (auto simp add: clamp_len_def word_less_nat_alt min_def)

lemma ucast_not_mask: "n \<le> 32 \<Longrightarrow> (ucast (NOT (mask n :: u64)) :: u32) = NOT (mask n)"
  by (rule bit_word_eqI) (auto simp add: bit_simps)

lemma net_mask_clamp: "net_mask (clamp_len m) = NOT (2 ^ (32 - min (unat m) 32) - 1)"
proof -
  have le: "unat (clamp_len m) \<le> 32" by (simp add: unat_clamp_len)
  have "unat (32 - clamp_len m) = 32 - unat (clamp_len m)"
    using clamp_len_le [of m] by (simp add: unat_sub)
  then have "net_mask (clamp_len m) = ucast (NOT (push_bit (32 - min (unat m) 32) (1 :: u64) - 1))"
    by (simp add: net_mask_def unat_clamp_len)
  also have "push_bit (32 - min (unat m) 32) (1 :: u64) - 1 = mask (32 - min (unat m) 32)"
    by (simp add: mask_eq_decr_exp push_bit_eq_mult)
  also have "(ucast (NOT (mask (32 - min (unat m) 32) :: u64)) :: u32) = NOT (mask (32 - min (unat m) 32))"
    by (rule ucast_not_mask) simp
  finally show ?thesis by (simp add: mask_eq_decr_exp)
qed

lemma ucast_and_ffff: "(ucast (x AND 0xffff :: u32) :: u16) = ucast x"
proof -
  have "(0xffff :: u32) = mask 16" by (simp add: mask_eq_decr_exp)
  then have "(ucast (x AND 0xffff :: u32) :: u16) = ucast (x AND mask 16)" by simp
  also have "\<dots> = ucast x" by (rule bit_word_eqI) (auto simp add: bit_simps)
  finally show ?thesis .
qed

lemma ucast_and_ff: "(ucast (x AND 0xff :: u32) :: u8) = ucast x"
proof -
  have "(0xff :: u32) = mask 8" by (simp add: mask_eq_decr_exp)
  then have "(ucast (x AND 0xff :: u32) :: u8) = ucast (x AND mask 8)" by simp
  also have "\<dots> = ucast x" by (rule bit_word_eqI) (auto simp add: bit_simps)
  finally show ?thesis .
qed

lemma port_range_eq:
  "port_range b e = (U16 (min (ucast b) (ucast e)), U16 (max (ucast b) (ucast e)))"
  by (auto simp add: port_range_def Let_def ucast_and_ffff min_def max_def)

lemma cb_rule_Inl:
  "cb_rule f = Inl e \<longleftrightarrow> proto_mask f \<noteq> 0xff \<and> proto_mask f \<noteq> 0 \<and> e = ProtocolMaskError (proto_mask f)"
  by (auto simp add: cb_rule_def Let_def)

lemma prfx_rule_Inl:
  "prfx_rule f = Inl e \<longleftrightarrow> proto_mask f \<noteq> 0xff \<and> proto_mask f \<noteq> 0 \<and> e = ProtocolMaskError (proto_mask f)"
  by (auto simp add: prfx_rule_def Let_def)

lemma cb_rule_isl: "isl (cb_rule f) \<longleftrightarrow> proto_mask f \<noteq> 0xff \<and> proto_mask f \<noteq> 0"
  by (auto simp add: cb_rule_def Let_def)

lemma prfx_rule_isl: "isl (prfx_rule f) \<longleftrightarrow> proto_mask f \<noteq> 0xff \<and> proto_mask f \<noteq> 0"
  by (auto simp add: prfx_rule_def Let_def)

lemma cb_rule_ip:
  assumes "cb_rule f = Inr r"
  shows "rdim r ! DIM_SIP =
           (U32 (ip_addr (src_ip_0 f) (src_ip_1 f) (src_ip_2 f) (src_ip_3 f)
                   AND NOT (2 ^ (32 - min (unat (src_ip_mask f)) 32) - 1)),
            U32 (ip_addr (src_ip_0 f) (src_ip_1 f) (src_ip_2 f) (src_ip_3 f)
                   OR (2 ^ (32 - min (unat (src_ip_mask f)) 32) - 1)))"
    and "rdim r ! DIM_DIP =
           (U32 (ip_addr (dst_ip_0 f) (dst_ip_1 f) (dst_ip_2 f) (dst_ip_3 f)
                   AND NOT (2 ^ (32 - min (unat (dst_ip_mask f)) 32) - 1)),
            U32 (ip_addr (dst_ip_0 f) (dst_ip_1 f) (dst_ip_2 f) (dst_ip_3 f)
                   OR (2 ^ (32 - min (unat (dst_ip_mask f)) 32) - 1)))"
  using assms
  by (auto simp add: cb_rule_def Let_def net_mask_clamp DIM_defs split: if_splits)

lemma cb_rule_ports:
  assumes "cb_rule f = Inr r"
  shows "rdim r ! DIM_SPORT =
           (U16 (min (ucast (src_port_begin f)) (ucast (src_port_end f))),
            U16 (max (ucast (src_port_begin f)) (ucast (src_port_end f))))"
    and "rdim r ! DIM_DPORT =
           (U16 (min (ucast (dst_port_begin f)) (ucast (dst_port_end f))),
            U16 (max (ucast (dst_port_begin f)) (ucast (dst_port_end f))))"
  using assms
  by (auto simp add: cb_rule_def Let_def port_range_eq DIM_defs split: if_splits)

lemma cb_rule_proto:
  assumes "cb_rule f = Inr r"
  shows "(proto_mask f = 0xff \<and> rdim r ! DIM_PROTO = (U8 (ucast (proto f)), U8 (ucast (proto f)))) \<or>
         (proto_mask f = 0 \<and> rdim r ! DIM_PROTO = (U8 0, U8 0xff))"
  using assms
  by (auto simp add: cb_rule_def Let_def ucast_and_ff DIM_defs split: if_splits)

lemma cb_rule_length: "cb_rule f = Inr r \<Longrightarrow> length (rdim r) = DIM_MAX"
  by (auto simp add: cb_rule_def Let_def DIM_defs split: if_splits)

lemma cb_rule_pri: "cb_rule f = Inr r \<Longrightarrow> rpri r = rule_id f - 1"
  by (auto simp add: cb_rule_def Let_def split: if_splits)

lemma prfx_rule_pri: "prfx_rule f = Inr r \<Longrightarrow> ppri r = rule_id f - 1"
  by (auto simp add: prfx_rule_def Let_def split: if_splits)

lemma lt5_cases: "d < (5::nat) \<Longrightarrow> d = 0 \<or> d = 1 \<or> d = 2 \<or> d = 3 \<or> d = 4"
  by arith

lemma cb_rule_ordered:
  assumes "cb_rule f = Inr r" and "d < DIM_MAX"
  shows "pt_val (fst (rdim r ! d)) \<le> pt_val (snd (rdim r ! d))"
    and "pt_val (snd (rdim r ! d)) < 2 ^ W d"
proof -
  from assms(2) have d: "d = 0 \<or> d = 1 \<or> d = 2 \<or> d = 3 \<or> d = 4"
    using lt5_cases [of d] by (simp add: DIM_MAX_def)
  have sip: "rdim r ! 0 = (U32 (ip_addr (src_ip_0 f) (src_ip_1 f) (src_ip_2 f) (src_ip_3 f)
                   AND NOT (2 ^ (32 - min (unat (src_ip_mask f)) 32) - 1)),
            U32 (ip_addr (src_ip_0 f) (src_ip_1 f) (src_ip_2 f) (src_ip_3 f)
                   OR (2 ^ (32 - min (unat (src_ip_mask f)) 32) - 1)))"
    using cb_rule_ip(1) [OF assms(1)] by (simp add: DIM_defs)
  have dip: "rdim r ! 1 = (U32 (ip_addr (dst_ip_0 f) (dst_ip_1 f) (dst_ip_2 f) (dst_ip_3 f)
                   AND NOT (2 ^ (32 - min (unat (dst_ip_mask f)) 32) - 1)),
            U32 (ip_addr (dst_ip_0 f) (dst_ip_1 f) (dst_ip_2 f) (dst_ip_3 f)
                   OR (2 ^ (32 - min (unat (dst_ip_mask f)) 32) - 1)))"
    using cb_rule_ip(2) [OF assms(1)] by (simp add: DIM_defs)
  have sp: "rdim r ! 2 = (U16 (min (ucast (src_port_begin f)) (ucast (src_port_end f))),
            U16 (max (ucast (src_port_begin f)) (ucast (src_port_end f))))"
    using cb_rule_ports(1) [OF assms(1)] by (simp add: DIM_defs)
  have dp: "rdim r ! 3 = (U16 (min (ucast (dst_port_begin f)) (ucast (dst_port_end f))),
            U16 (max (ucast (dst_port_begin f)) (ucast (dst_port_end f))))"
    using cb_rule_ports(2) [OF assms(1)] by (simp add: DIM_defs)
  have pr: "rdim r ! 4 = (U8 (ucast (proto f)), U8 (ucast (proto f))) \<or> rdim r ! 4 = (U8 0, U8 0xff)"
    using cb_rule_proto [OF assms(1)] by (auto simp add: DIM_defs)
  have le32: "\<And>x m :: u32. unat (x AND NOT m) \<le> unat (x OR m)"
  proof -
    fix x m :: u32
    have "x AND NOT m \<le> x" by (rule word_and_le2)
    also have "x \<le> x OR m" by (rule le_word_or2)
    finally show "unat (x AND NOT m) \<le> unat (x OR m)" by (simp add: word_le_nat_alt)
  qed
  have b32: "unat x < 2 ^ 32" for x :: u32
    using unsigned_less [of x, where ?'a = nat] by simp
  have b16: "unat x < 2 ^ 16" for x :: u16
    using unsigned_less [of x, where ?'a = nat] by simp
  have b8: "unat x < 2 ^ 8" for x :: u8
    using unsigned_less [of x, where ?'a = nat] by simp
  have m16: "unat (min a b) \<le> unat (max a b)" for a b :: u16
    by (auto simp add: word_le_nat_alt min_def max_def)
  from d show "pt_val (fst (rdim r ! d)) \<le> pt_val (snd (rdim r ! d))"
    using sip dip sp dp pr le32 m16 by auto
  from d show "pt_val (snd (rdim r ! d)) < 2 ^ W d"
    using sip dip sp dp pr b32 b16 b8 by (auto simp add: W_def)
qed

subsection \<open>Loaded rules and packets\<close>

lemmas cb_eval = load_cb_rules_def load_loop_fopen cb_line_1_def cb_line_2_def cb_line_bad_def
  cb_file_1_def cb_rules_1_def cb_rule_def ip_addr_def net_mask_clamp
  port_range_def RULE_MAX_def

lemma wild_low: "x AND NOT ((2 :: u32) ^ 32 - 1) = 0"
proof -
  have "(2 :: u32) ^ 32 - 1 = - 1" by simp
  then show ?thesis by (simp only: bit.compl_one and.right_neutral) simp
qed

lemma wild_high: "x OR ((2 :: u32) ^ 32 - 1) = 0xFFFFFFFF"
proof -
  have "(2 :: u32) ^ 32 - 1 = - 1" by simp
  then have "x OR ((2 :: u32) ^ 32 - 1) = - 1" by (simp only: or.right_neutral) simp
  also have "(- 1 :: u32) = 0xFFFFFFFF" by simp
  finally show ?thesis .
qed

lemma cb_rule_ip_wild:
  assumes "cb_rule f = Inr r"
  shows "src_ip_mask f = 0 \<Longrightarrow> rdim r ! DIM_SIP = (U32 0, U32 0xFFFFFFFF)"
    and "dst_ip_mask f = 0 \<Longrightarrow> rdim r ! DIM_DIP = (U32 0, U32 0xFFFFFFFF)"
proof -
  assume "src_ip_mask f = 0"
  then have "32 - min (unat (src_ip_mask f)) 32 = 32" by simp
  with cb_rule_ip(1) [OF assms] show "rdim r ! DIM_SIP = (U32 0, U32 0xFFFFFFFF)"
    by (simp only: wild_low wild_high)
next
  assume "dst_ip_mask f = 0"
  then have "32 - min (unat (dst_ip_mask f)) 32 = 32" by simp
  with cb_rule_ip(2) [OF assms] show "rdim r ! DIM_DIP = (U32 0, U32 0xFFFFFFFF)"
    by (simp only: wild_low wild_high)
qed

text \<open>
  Claim C2. Every line that \<open>load_cb_rules\<close> has loaded, with address \<open>ip\<close> (the four octets,
  each cut to 8 bits) and mask length \<open>m\<close>, is stored in the IP dimension as
  low \<open>= ip & ~((1 << (32 - m)) - 1)\<close> and high \<open>= ip | ((1 << (32 - m)) - 1)\<close>, where \<open>m\<close> is
  first clamped to 32; this holds for the source and for the destination address, and
  \<open>m = 0\<close> gives the whole range from 0 to \<open>2^32 - 1\<close>.
\<close>

theorem load_cb_rules_ip_range:
  assumes "load_cb_rules rf = Inr rs" and "k < length rs"
  shows
    "(let f = entries rf ! k;
          sip = ip_addr (src_ip_0 f) (src_ip_1 f) (src_ip_2 f) (src_ip_3 f);
          sm = min (unat (src_ip_mask f)) 32;
          dip = ip_addr (dst_ip_0 f) (dst_ip_1 f) (dst_ip_2 f) (dst_ip_3 f);
          dm = min (unat (dst_ip_mask f)) 32
      in rdim (rs ! k) ! DIM_SIP =
           (U32 (sip AND NOT (2 ^ (32 - sm) - 1)), U32 (sip OR (2 ^ (32 - sm) - 1))) \<and>
         rdim (rs ! k) ! DIM_DIP =
           (U32 (dip AND NOT (2 ^ (32 - dm) - 1)), U32 (dip OR (2 ^ (32 - dm) - 1))) \<and>
         (src_ip_mask f = 0 \<longrightarrow> rdim (rs ! k) ! DIM_SIP = (U32 0, U32 0xFFFFFFFF)) \<and>
         (dst_ip_mask f = 0 \<longrightarrow> rdim (rs ! k) ! DIM_DIP = (U32 0, U32 0xFFFFFFFF)))"
proof -
  have c: "cb_rule (entries rf ! k) = Inr (rs ! k)"
    using assms by (simp add: load_cb_rules_def load_loop_nth)
  show ?thesis
    using cb_rule_ip [OF c] cb_rule_ip_wild [OF c] by (simp add: Let_def)
qed

theorem load_cb_rules_ip_range_witness:
  "load_cb_rules cb_file_1 = Inr cb_rules_1 \<and>
   rdim (cb_rules_1 ! 0) ! DIM_SIP = (U32 0x0A000000, U32 0x0AFFFFFF) \<and>
   rdim (cb_rules_1 ! 0) ! DIM_DIP = (U32 0, U32 0xFFFFFFFF) \<and>
   rdim (cb_rules_1 ! 1) ! DIM_SIP = (U32 0x0A010203, U32 0x0A010203)"
proof -
  have h: "load_cb_rules cb_file_1 = Inr cb_rules_1" by (simp add: cb_eval)
  have k0: "0 < length cb_rules_1" and k1: "1 < length cb_rules_1"
    by (simp_all add: cb_rules_1_def)
  from load_cb_rules_ip_range [OF h k0] load_cb_rules_ip_range [OF h k1] h
  show ?thesis
    by (simp add: Let_def cb_file_1_def cb_line_1_def cb_line_2_def ip_addr_def)
qed

lemmas prfx_eval = load_prfx_rules_def load_loop_fopen prfx_line_1_def prfx_line_2_def
  prfx_line_bad_def prfx_file_1_def prfx_file_bad_def prfx_rules_1_def prfx_rule_def ip_addr_def
  net_mask_clamp unat_clamp_len RULE_MAX_def

lemmas trace_eval = load_trace_def load_loop_fopen pkt_line_1_def trace_file_1_def trace_1_def
  trace_packet_def PKT_MAX_def

lemma prfx_rule_len:
  assumes "prfx_rule f = Inr r"
  shows "plen r = [min (unat (src_ip_mask f)) 32, min (unat (dst_ip_mask f)) 32,
                   unat (src_port_mask f), unat (dst_port_mask f),
                   (if proto_mask f = 0xff then 8 else 0)]"
  using assms by (auto simp add: prfx_rule_def Let_def unat_clamp_len split: if_splits)

lemma prfx_rule_proto:
  assumes "prfx_rule f = Inr r"
  shows "(proto_mask f = 0xff \<and> pdim r ! DIM_PROTO = U8 (ucast (proto f)) \<and> plen r ! DIM_PROTO = 8) \<or>
         (proto_mask f = 0 \<and> pdim r ! DIM_PROTO = U8 0 \<and> plen r ! DIM_PROTO = 0)"
  using assms
  by (auto simp add: prfx_rule_def Let_def ucast_and_ff DIM_defs split: if_splits)

text \<open>
  Claim C3. Every range rule that \<open>load_cb_rules\<close> returns has low \<open>\<le>\<close> high in each of the
  five dimensions, with values within the width of the dimension (32, 32, 16, 16, 8 bits);
  the port bounds are the two numbers of the line cut to 16 bits, the smaller one first, and
  the protocol range is the exact pair of the protocol byte or the wildcard from 0 to 255.
\<close>

theorem load_cb_rules_low_le_high:
  assumes "load_cb_rules rf = Inr rs" and "k < length rs"
  shows
    "(let f = entries rf ! k; r = rs ! k
      in length (rdim r) = DIM_MAX \<and>
         (\<forall>d < DIM_MAX. pt_val (fst (rdim r ! d)) \<le> pt_val (snd (rdim r ! d)) \<and>
                        pt_val (snd (rdim r ! d)) < 2 ^ W d) \<and>
         rdim r ! DIM_SPORT =
           (U16 (min (ucast (src_port_begin f)) (ucast (src_port_end f))),
            U16 (max (ucast (src_port_begin f)) (ucast (src_port_end f)))) \<and>
         rdim r ! DIM_DPORT =
           (U16 (min (ucast (dst_port_begin f)) (ucast (dst_port_end f))),
            U16 (max (ucast (dst_port_begin f)) (ucast (dst_port_end f)))) \<and>
         (rdim r ! DIM_PROTO = (U8 (ucast (proto f)), U8 (ucast (proto f))) \<or>
          rdim r ! DIM_PROTO = (U8 0, U8 255)))"
proof -
  have c: "cb_rule (entries rf ! k) = Inr (rs ! k)"
    using assms by (simp add: load_cb_rules_def load_loop_nth)
  have "rdim (rs ! k) ! DIM_PROTO =
          (U8 (ucast (proto (entries rf ! k))), U8 (ucast (proto (entries rf ! k)))) \<or>
        rdim (rs ! k) ! DIM_PROTO = (U8 0, U8 255)"
    using cb_rule_proto [OF c] by auto
  then show ?thesis
    using cb_rule_length [OF c] cb_rule_ordered [OF c] cb_rule_ports [OF c]
    by (simp add: Let_def)
qed

theorem load_cb_rules_low_le_high_witness:
  "load_cb_rules cb_file_1 = Inr cb_rules_1 \<and>
   rdim (cb_rules_1 ! 0) ! DIM_SPORT = (U16 1000, U16 2000) \<and>
   rdim (cb_rules_1 ! 0) ! DIM_PROTO = (U8 6, U8 6) \<and>
   pt_val (fst (rdim (cb_rules_1 ! 0) ! DIM_SIP)) \<le> pt_val (snd (rdim (cb_rules_1 ! 0) ! DIM_SIP))"
proof -
  have h: "load_cb_rules cb_file_1 = Inr cb_rules_1" by (simp add: cb_eval)
  have k0: "0 < length cb_rules_1" by (simp add: cb_rules_1_def)
  have d: "DIM_SIP < DIM_MAX" by (simp add: DIM_defs)
  from load_cb_rules_low_le_high [OF h k0] d h
  show ?thesis
    by (simp add: Let_def cb_file_1_def cb_line_1_def cb_rules_1_def DIM_defs)
qed

text \<open>
  Claim C5. The priority of every loaded rule, in both rule loaders, is the rule id of its
  line minus one, and the expected priority of every loaded packet is the expected rule id of
  its line minus one (in 32-bit arithmetic; for a 1-based id the predecessor as a number).
\<close>

theorem loaded_priority_is_id_minus_one:
  "(load_cb_rules rf = Inr rs \<and> k < length rs \<longrightarrow>
      rpri (rs ! k) = rule_id (entries rf ! k) - 1 \<and>
      (rule_id (entries rf ! k) \<noteq> 0 \<longrightarrow> unat (rpri (rs ! k)) + 1 = unat (rule_id (entries rf ! k)))) \<and>
   (load_prfx_rules pf = Inr ps \<and> j < length ps \<longrightarrow>
      ppri (ps ! j) = rule_id (entries pf ! j) - 1 \<and>
      (rule_id (entries pf ! j) \<noteq> 0 \<longrightarrow> unat (ppri (ps ! j)) + 1 = unat (rule_id (entries pf ! j)))) \<and>
   (load_trace tf = Inr pkts \<and> n < length pkts \<longrightarrow>
      match (pkts ! n) = pkt_match (entries tf ! n) - 1 \<and>
      (pkt_match (entries tf ! n) \<noteq> 0 \<longrightarrow> unat (match (pkts ! n)) + 1 = unat (pkt_match (entries tf ! n))))"
proof -
  have dec: "unat (x - 1) + 1 = unat x" if "x \<noteq> 0" for x :: u32
  proof -
    from that have "unat x \<noteq> 0" by (simp add: unat_eq_0)
    with that show ?thesis by (simp add: unat_minus_one)
  qed
  have a: "rpri (rs ! k) = rule_id (entries rf ! k) - 1"
    if "load_cb_rules rf = Inr rs" "k < length rs"
    using that by (simp add: load_cb_rules_def load_loop_nth cb_rule_pri)
  have b: "ppri (ps ! j) = rule_id (entries pf ! j) - 1"
    if "load_prfx_rules pf = Inr ps" "j < length ps"
    using that by (simp add: load_prfx_rules_def load_loop_nth prfx_rule_pri)
  have c: "match (pkts ! n) = pkt_match (entries tf ! n) - 1"
    if "load_trace tf = Inr pkts" "n < length pkts"
  proof -
    have "Inr (trace_packet (entries tf ! n)) = (Inr (pkts ! n) :: fatal + packet)"
      using that load_loop_nth [of PKT_MAX TooManyPackets IllegalPacketFormat "\<lambda>f. Inr (trace_packet f)" tf pkts n]
      by (simp add: load_trace_def)
    then have "pkts ! n = trace_packet (entries tf ! n)" by simp
    then show ?thesis by (simp add: trace_packet_def)
  qed
  show ?thesis using a b c dec by auto
qed

theorem loaded_priority_is_id_minus_one_witness:
  "load_cb_rules cb_file_1 = Inr cb_rules_1 \<and> rpri (cb_rules_1 ! 1) = 2 - 1 \<and>
   load_prfx_rules prfx_file_1 = Inr prfx_rules_1 \<and> ppri (prfx_rules_1 ! 0) = 1 - 1 \<and>
   load_trace trace_file_1 = Inr trace_1 \<and> match (trace_1 ! 0) = 1 - 1"
proof -
  have h1: "load_cb_rules cb_file_1 = Inr cb_rules_1" by (simp add: cb_eval)
  have h2: "load_prfx_rules prfx_file_1 = Inr prfx_rules_1" by (simp add: prfx_eval)
  have h3: "load_trace trace_file_1 = Inr trace_1" by (simp add: trace_eval)
  have k: "1 < length cb_rules_1" "0 < length prfx_rules_1" "0 < length trace_1"
    by (simp_all add: cb_rules_1_def prfx_rules_1_def trace_1_def)
  from loaded_priority_is_id_minus_one [of cb_file_1 cb_rules_1 1 prfx_file_1 prfx_rules_1 0
      trace_file_1 trace_1 0] h1 h2 h3 k
  show ?thesis
    by (simp add: cb_file_1_def cb_line_2_def prfx_file_1_def prfx_line_1_def
        trace_file_1_def pkt_line_1_def)
qed

text \<open>
  Claim C4. Both rule loaders accept a protocol mask of exactly \<open>0xFF\<close>, stored as an exact
  match on the protocol byte, and of exactly \<open>0x00\<close>, stored as the wildcard (the range from
  0 to 255, or the prefix of length 0 and value 0); a line with any other mask is fatal with
  the protocol mask diagnostic, and so is the file whose first such line is reached.
\<close>

theorem protocol_mask_accept_or_fatal:
  "(\<forall>e. cb_rule f = Inl e \<longleftrightarrow>
         proto_mask f \<noteq> 0xff \<and> proto_mask f \<noteq> 0 \<and> e = ProtocolMaskError (proto_mask f)) \<and>
   (\<forall>e. prfx_rule g = Inl e \<longleftrightarrow>
         proto_mask g \<noteq> 0xff \<and> proto_mask g \<noteq> 0 \<and> e = ProtocolMaskError (proto_mask g)) \<and>
   (load_cb_rules rf = Inr rs \<and> k < length rs \<longrightarrow>
      (proto_mask (entries rf ! k) = 0xff \<and>
       rdim (rs ! k) ! DIM_PROTO =
         (U8 (ucast (proto (entries rf ! k))), U8 (ucast (proto (entries rf ! k))))) \<or>
      (proto_mask (entries rf ! k) = 0 \<and> rdim (rs ! k) ! DIM_PROTO = (U8 0, U8 255))) \<and>
   (load_prfx_rules pf = Inr ps \<and> j < length ps \<longrightarrow>
      (proto_mask (entries pf ! j) = 0xff \<and>
       pdim (ps ! j) ! DIM_PROTO = U8 (ucast (proto (entries pf ! j))) \<and>
       plen (ps ! j) ! DIM_PROTO = 8) \<or>
      (proto_mask (entries pf ! j) = 0 \<and> pdim (ps ! j) ! DIM_PROTO = U8 0 \<and>
       plen (ps ! j) ! DIM_PROTO = 0)) \<and>
   (m < length (entries rf') \<and> m < RULE_MAX \<and>
    (\<forall>i < m. proto_mask (entries rf' ! i) = 0xff \<or> proto_mask (entries rf' ! i) = 0) \<and>
    proto_mask (entries rf' ! m) \<noteq> 0xff \<and> proto_mask (entries rf' ! m) \<noteq> 0 \<longrightarrow>
      load_cb_rules rf' = Inl (ProtocolMaskError (proto_mask (entries rf' ! m)))) \<and>
   (n < length (entries pf') \<and> n < RULE_MAX \<and>
    (\<forall>i < n. proto_mask (entries pf' ! i) = 0xff \<or> proto_mask (entries pf' ! i) = 0) \<and>
    proto_mask (entries pf' ! n) \<noteq> 0xff \<and> proto_mask (entries pf' ! n) \<noteq> 0 \<longrightarrow>
      load_prfx_rules pf' = Inl (ProtocolMaskError (proto_mask (entries pf' ! n))))"
proof -
  have a: "(proto_mask (entries rf ! k) = 0xff \<and>
       rdim (rs ! k) ! DIM_PROTO =
         (U8 (ucast (proto (entries rf ! k))), U8 (ucast (proto (entries rf ! k))))) \<or>
      (proto_mask (entries rf ! k) = 0 \<and> rdim (rs ! k) ! DIM_PROTO = (U8 0, U8 255))"
    if "load_cb_rules rf = Inr rs" "k < length rs"
  proof -
    have "cb_rule (entries rf ! k) = Inr (rs ! k)"
      using that by (simp add: load_cb_rules_def load_loop_nth)
    from cb_rule_proto [OF this] show ?thesis by simp
  qed
  have b: "(proto_mask (entries pf ! j) = 0xff \<and>
       pdim (ps ! j) ! DIM_PROTO = U8 (ucast (proto (entries pf ! j))) \<and>
       plen (ps ! j) ! DIM_PROTO = 8) \<or>
      (proto_mask (entries pf ! j) = 0 \<and> pdim (ps ! j) ! DIM_PROTO = U8 0 \<and>
       plen (ps ! j) ! DIM_PROTO = 0)"
    if "load_prfx_rules pf = Inr ps" "j < length ps"
  proof -
    have "prfx_rule (entries pf ! j) = Inr (ps ! j)"
      using that by (simp add: load_prfx_rules_def load_loop_nth)
    from prfx_rule_proto [OF this] show ?thesis by simp
  qed
  have c: "load_cb_rules rf' = Inl (ProtocolMaskError (proto_mask (entries rf' ! m)))"
    if "m < length (entries rf')" "m < RULE_MAX"
      "\<forall>i < m. proto_mask (entries rf' ! i) = 0xff \<or> proto_mask (entries rf' ! i) = 0"
      "proto_mask (entries rf' ! m) \<noteq> 0xff" "proto_mask (entries rf' ! m) \<noteq> 0"
  proof -
    have "\<forall>i < m. \<not> isl (cb_rule (entries rf' ! i))" using that(3) by (simp add: cb_rule_isl)
    moreover have "cb_rule (entries rf' ! m) = Inl (ProtocolMaskError (proto_mask (entries rf' ! m)))"
      using that(4,5) by (simp add: cb_rule_Inl)
    ultimately show ?thesis
      using that(1,2) unfolding load_cb_rules_def load_loop_fopen
      by (intro scan_list_first_error [of m]) simp_all
  qed
  have d: "load_prfx_rules pf' = Inl (ProtocolMaskError (proto_mask (entries pf' ! n)))"
    if "n < length (entries pf')" "n < RULE_MAX"
      "\<forall>i < n. proto_mask (entries pf' ! i) = 0xff \<or> proto_mask (entries pf' ! i) = 0"
      "proto_mask (entries pf' ! n) \<noteq> 0xff" "proto_mask (entries pf' ! n) \<noteq> 0"
  proof -
    have "\<forall>i < n. \<not> isl (prfx_rule (entries pf' ! i))" using that(3) by (simp add: prfx_rule_isl)
    moreover have "prfx_rule (entries pf' ! n) = Inl (ProtocolMaskError (proto_mask (entries pf' ! n)))"
      using that(4,5) by (simp add: prfx_rule_Inl)
    ultimately show ?thesis
      using that(1,2) unfolding load_prfx_rules_def load_loop_fopen
      by (intro scan_list_first_error [of n]) simp_all
  qed
  show ?thesis
    using a b c d cb_rule_Inl [of f] prfx_rule_Inl [of g] by blast
qed

theorem protocol_mask_accept_or_fatal_witness:
  "load_cb_rules cb_file_1 = Inr cb_rules_1 \<and>
   rdim (cb_rules_1 ! 0) ! DIM_PROTO = (U8 6, U8 6) \<and>
   load_prfx_rules prfx_file_1 = Inr prfx_rules_1 \<and>
   pdim (prfx_rules_1 ! 1) ! DIM_PROTO = U8 0 \<and> plen (prfx_rules_1 ! 1) ! DIM_PROTO = 0 \<and>
   load_cb_rules cb_file_bad = Inl (ProtocolMaskError 0x0f) \<and>
   load_prfx_rules prfx_file_bad = Inl (ProtocolMaskError 0x80)"
proof -
  have h1: "load_cb_rules cb_file_1 = Inr cb_rules_1" by (simp add: cb_eval)
  have h2: "load_prfx_rules prfx_file_1 = Inr prfx_rules_1" by (simp add: prfx_eval)
  have k: "0 < length cb_rules_1" "1 < length prfx_rules_1"
    by (simp_all add: cb_rules_1_def prfx_rules_1_def)
  have e1: "entries cb_file_1 ! 0 = cb_line_1" "entries prfx_file_1 ! 1 = prfx_line_2"
    "entries cb_file_bad ! 1 = cb_line_bad" "entries prfx_file_bad ! 0 = prfx_line_bad"
    "entries cb_file_bad ! 0 = cb_line_1"
    by (simp_all add: cb_file_1_def prfx_file_1_def cb_file_bad_def prfx_file_bad_def)
  have m: "proto_mask cb_line_1 = 0xff" "proto_mask prfx_line_2 = 0"
    "proto_mask cb_line_bad = 0x0f" "proto_mask prfx_line_bad = 0x80" "proto cb_line_1 = 6"
    by (simp_all add: cb_line_1_def prfx_line_2_def cb_line_bad_def prfx_line_bad_def)
  have l: "1 < length (entries cb_file_bad)" "0 < length (entries prfx_file_bad)"
    "(1::nat) < RULE_MAX" "(0::nat) < RULE_MAX"
    by (simp_all add: cb_file_bad_def prfx_file_bad_def RULE_MAX_def)
  have p: "\<forall>i < (1::nat). proto_mask (entries cb_file_bad ! i) = 0xff \<or> proto_mask (entries cb_file_bad ! i) = 0"
    using e1 m by simp
  from protocol_mask_accept_or_fatal [of cb_line_1 prfx_line_1 cb_file_1 cb_rules_1 0
      prfx_file_1 prfx_rules_1 1 1 cb_file_bad 0 prfx_file_bad] h1 h2 k e1 m l p
  show ?thesis by simp
qed

text \<open>
  Claim C9. In every prefix rule that \<open>load_prfx_rules\<close> returns, the lengths of the IP
  dimensions are the mask lengths of the line clamped to 32 and the protocol length is 8 or 0;
  with port mask lengths within 0..16 in the file, the port lengths are those of the line and
  every length is at most the width of its dimension.
\<close>

theorem load_prfx_rules_len_bounds:
  assumes "load_prfx_rules rf = Inr rs" and "k < length rs"
  shows
    "(let f = entries rf ! k; r = rs ! k
      in length (plen r) = DIM_MAX \<and>
         plen r ! DIM_SIP = min (unat (src_ip_mask f)) 32 \<and> plen r ! DIM_SIP \<le> W DIM_SIP \<and>
         plen r ! DIM_DIP = min (unat (dst_ip_mask f)) 32 \<and> plen r ! DIM_DIP \<le> W DIM_DIP \<and>
         (plen r ! DIM_PROTO = 8 \<or> plen r ! DIM_PROTO = 0) \<and>
         (unat (src_port_mask f) \<le> 16 \<and> unat (dst_port_mask f) \<le> 16 \<longrightarrow>
            plen r ! DIM_SPORT = unat (src_port_mask f) \<and>
            plen r ! DIM_DPORT = unat (dst_port_mask f) \<and>
            (\<forall>d < DIM_MAX. plen r ! d \<le> W d)))"
proof -
  have c: "prfx_rule (entries rf ! k) = Inr (rs ! k)"
    using assms by (simp add: load_prfx_rules_def load_loop_nth)
  have all: "plen (rs ! k) ! d \<le> W d"
    if "unat (src_port_mask (entries rf ! k)) \<le> 16" "unat (dst_port_mask (entries rf ! k)) \<le> 16"
      "d < DIM_MAX" for d
  proof -
    from that(3) have "d = 0 \<or> d = 1 \<or> d = 2 \<or> d = 3 \<or> d = 4"
      using lt5_cases [of d] by (simp add: DIM_MAX_def)
    then show ?thesis
      using that(1,2) by (auto simp add: prfx_rule_len [OF c] W_def)
  qed
  show ?thesis
    using all by (simp add: Let_def prfx_rule_len [OF c] DIM_defs W_def)
qed

theorem load_prfx_rules_len_bounds_witness:
  "load_prfx_rules prfx_file_1 = Inr prfx_rules_1 \<and>
   plen (prfx_rules_1 ! 1) = [32, 16, 0, 6, 0] \<and>
   plen (prfx_rules_1 ! 1) ! DIM_SIP \<le> W DIM_SIP \<and>
   plen (prfx_rules_1 ! 1) ! DIM_DPORT \<le> W DIM_DPORT"
proof -
  have h: "load_prfx_rules prfx_file_1 = Inr prfx_rules_1" by (simp add: prfx_eval)
  have k: "1 < length prfx_rules_1" by (simp add: prfx_rules_1_def)
  have p: "unat (src_port_mask (entries prfx_file_1 ! 1)) \<le> 16"
    "unat (dst_port_mask (entries prfx_file_1 ! 1)) \<le> 16"
    by (simp_all add: prfx_file_1_def prfx_line_2_def)
  have d: "DIM_DPORT < DIM_MAX" by (simp add: DIM_defs)
  from load_prfx_rules_len_bounds [OF h k] p d h
  show ?thesis by (simp add: Let_def prfx_rules_1_def DIM_defs W_def)
qed

subsection \<open>Capacity and end of file\<close>

lemma cb_rule_not_cap: "\<forall>f e. cb_rule f = Inl e \<longrightarrow> e \<noteq> TooManyRules"
  by (simp add: cb_rule_Inl)

lemma prfx_rule_not_cap: "\<forall>f e. prfx_rule f = Inl e \<longrightarrow> e \<noteq> TooManyRules"
  by (simp add: prfx_rule_Inl)

lemma scan_list_unread_fatal:
  assumes "lo"
  shows "\<exists>e. scan_list cap tm il conv fs lo i acc = Inl e"
proof (cases "scan_list cap tm il conv fs lo i acc")
  case (Inl e)
  then show ?thesis by simp
next
  case (Inr rs)
  from scan_list_Inr [OF this] assms show ?thesis by simp
qed

text \<open>
  Claim C6, as amended. A file with more than \<open>RULE_MAX\<close> (\<open>PKT_MAX\<close>) records is fatal: with
  the capacity diagnostic for a trace file, and for a rule file whose first \<open>RULE_MAX\<close> records
  carry protocol masks \<open>0xFF\<close> or \<open>0x00\<close>. A file with fewer records than the cap is never
  rejected for capacity; a file with exactly as many is not when the scan of its last record
  runs into the end of the file. When unread input remains after exactly as many records,
  loading is fatal: with the capacity diagnostic for a trace file, and for a rule file whose
  records all carry protocol masks \<open>0xFF\<close> or \<open>0x00\<close>.
\<close>

theorem capacity_caps:
  "(RULE_MAX < length (entries rf) \<longrightarrow>
      (\<exists>e. load_cb_rules rf = Inl e) \<and>
      ((\<forall>j < RULE_MAX. proto_mask (entries rf ! j) = 0xff \<or> proto_mask (entries rf ! j) = 0)
         \<longrightarrow> load_cb_rules rf = Inl TooManyRules)) \<and>
   (length (entries rf) < RULE_MAX \<or> (length (entries rf) = RULE_MAX \<and> \<not> unread rf) \<longrightarrow>
      load_cb_rules rf \<noteq> Inl TooManyRules) \<and>
   (RULE_MAX < length (entries pf) \<longrightarrow>
      (\<exists>e. load_prfx_rules pf = Inl e) \<and>
      ((\<forall>j < RULE_MAX. proto_mask (entries pf ! j) = 0xff \<or> proto_mask (entries pf ! j) = 0)
         \<longrightarrow> load_prfx_rules pf = Inl TooManyRules)) \<and>
   (length (entries pf) < RULE_MAX \<or> (length (entries pf) = RULE_MAX \<and> \<not> unread pf) \<longrightarrow>
      load_prfx_rules pf \<noteq> Inl TooManyRules) \<and>
   (PKT_MAX < length (entries tf) \<longrightarrow> load_trace tf = Inl TooManyPackets) \<and>
   (length (entries tf) < PKT_MAX \<or> (length (entries tf) = PKT_MAX \<and> \<not> unread tf) \<longrightarrow>
      load_trace tf \<noteq> Inl TooManyPackets) \<and>
   (length (entries rf) = RULE_MAX \<and> unread rf \<and>
    (\<forall>j < RULE_MAX. proto_mask (entries rf ! j) = 0xff \<or> proto_mask (entries rf ! j) = 0)
      \<longrightarrow> load_cb_rules rf = Inl TooManyRules) \<and>
   (length (entries pf) = RULE_MAX \<and> unread pf \<and>
    (\<forall>j < RULE_MAX. proto_mask (entries pf ! j) = 0xff \<or> proto_mask (entries pf ! j) = 0)
      \<longrightarrow> load_prfx_rules pf = Inl TooManyRules) \<and>
   (length (entries tf) = PKT_MAX \<and> unread tf \<longrightarrow> load_trace tf = Inl TooManyPackets) \<and>
   (length (entries rf) = RULE_MAX \<and> unread rf \<longrightarrow> (\<exists>e. load_cb_rules rf = Inl e)) \<and>
   (length (entries pf) = RULE_MAX \<and> unread pf \<longrightarrow> (\<exists>e. load_prfx_rules pf = Inl e))"
proof -
  have pos: "0 < RULE_MAX" "0 < PKT_MAX" by (simp_all add: RULE_MAX_def PKT_MAX_def)
  have a1: "\<exists>e. load_cb_rules rf = Inl e" if "RULE_MAX < length (entries rf)"
    unfolding load_cb_rules_def load_loop_fopen using that by (intro scan_list_over_cap) simp
  have a2: "load_cb_rules rf = Inl TooManyRules"
    if "RULE_MAX < length (entries rf)"
      "\<forall>j < RULE_MAX. proto_mask (entries rf ! j) = 0xff \<or> proto_mask (entries rf ! j) = 0"
    unfolding load_cb_rules_def load_loop_fopen using that
    by (intro scan_list_too_many) (simp_all add: cb_rule_isl)
  have a3: "load_cb_rules rf \<noteq> Inl TooManyRules"
    if "length (entries rf) < RULE_MAX \<or> (length (entries rf) = RULE_MAX \<and> \<not> unread rf)"
    unfolding load_cb_rules_def load_loop_fopen using that pos cb_rule_not_cap
    by (intro scan_list_not_too_many) auto
  have b1: "\<exists>e. load_prfx_rules pf = Inl e" if "RULE_MAX < length (entries pf)"
    unfolding load_prfx_rules_def load_loop_fopen using that by (intro scan_list_over_cap) simp
  have b2: "load_prfx_rules pf = Inl TooManyRules"
    if "RULE_MAX < length (entries pf)"
      "\<forall>j < RULE_MAX. proto_mask (entries pf ! j) = 0xff \<or> proto_mask (entries pf ! j) = 0"
    unfolding load_prfx_rules_def load_loop_fopen using that
    by (intro scan_list_too_many) (simp_all add: prfx_rule_isl)
  have b3: "load_prfx_rules pf \<noteq> Inl TooManyRules"
    if "length (entries pf) < RULE_MAX \<or> (length (entries pf) = RULE_MAX \<and> \<not> unread pf)"
    unfolding load_prfx_rules_def load_loop_fopen using that pos prfx_rule_not_cap
    by (intro scan_list_not_too_many) auto
  have c1: "load_trace tf = Inl TooManyPackets" if "PKT_MAX < length (entries tf)"
    unfolding load_trace_def load_loop_fopen using that
    by (intro scan_list_too_many) simp_all
  have c2: "load_trace tf \<noteq> Inl TooManyPackets"
    if "length (entries tf) < PKT_MAX \<or> (length (entries tf) = PKT_MAX \<and> \<not> unread tf)"
    unfolding load_trace_def load_loop_fopen using that pos
    by (intro scan_list_not_too_many) auto
  have a4: "load_cb_rules rf = Inl TooManyRules"
    if "length (entries rf) = RULE_MAX" "unread rf"
      "\<forall>j < RULE_MAX. proto_mask (entries rf ! j) = 0xff \<or> proto_mask (entries rf ! j) = 0"
    unfolding load_cb_rules_def load_loop_fopen using that
    by (intro scan_list_too_many) (simp_all add: cb_rule_isl)
  have b4: "load_prfx_rules pf = Inl TooManyRules"
    if "length (entries pf) = RULE_MAX" "unread pf"
      "\<forall>j < RULE_MAX. proto_mask (entries pf ! j) = 0xff \<or> proto_mask (entries pf ! j) = 0"
    unfolding load_prfx_rules_def load_loop_fopen using that
    by (intro scan_list_too_many) (simp_all add: prfx_rule_isl)
  have c3: "load_trace tf = Inl TooManyPackets" if "length (entries tf) = PKT_MAX" "unread tf"
    unfolding load_trace_def load_loop_fopen using that
    by (intro scan_list_too_many) simp_all
  have a5: "\<exists>e. load_cb_rules rf = Inl e" if "unread rf"
    unfolding load_cb_rules_def load_loop_fopen using that by (rule scan_list_unread_fatal)
  have b5: "\<exists>e. load_prfx_rules pf = Inl e" if "unread pf"
    unfolding load_prfx_rules_def load_loop_fopen using that by (rule scan_list_unread_fatal)
  show ?thesis using a1 a2 a3 a4 a5 b1 b2 b3 b4 b5 c1 c2 c3 by blast
qed

theorem capacity_caps_witness:
  "load_cb_rules cb_file_over = Inl TooManyRules \<and>
   load_cb_rules cb_file_1 \<noteq> Inl TooManyRules \<and>
   load_prfx_rules prfx_file_1 \<noteq> Inl TooManyRules \<and>
   load_trace trace_file_over = Inl TooManyPackets \<and>
   load_trace trace_file_1 \<noteq> Inl TooManyPackets \<and>
   load_cb_rules cb_file_full = Inl TooManyRules \<and>
   load_trace trace_file_full = Inl TooManyPackets"
proof -
  have l: "RULE_MAX < length (entries cb_file_over)" "length (entries cb_file_1) < RULE_MAX"
    "length (entries prfx_file_1) < RULE_MAX" "PKT_MAX < length (entries trace_file_over)"
    "length (entries trace_file_1) < PKT_MAX" "length (entries cb_file_full) = RULE_MAX"
    "length (entries trace_file_full) = PKT_MAX"
    by (simp_all add: cb_file_over_def cb_file_1_def prfx_file_1_def trace_file_over_def
        trace_file_1_def cb_file_full_def trace_file_full_def RULE_MAX_def PKT_MAX_def)
  have u: "unread cb_file_full" "unread trace_file_full"
    by (simp_all add: cb_file_full_def trace_file_full_def)
  have m: "\<forall>j < RULE_MAX. proto_mask (entries cb_file_over ! j) = 0xff \<or>
             proto_mask (entries cb_file_over ! j) = 0"
    "\<forall>j < RULE_MAX. proto_mask (entries cb_file_full ! j) = 0xff \<or>
             proto_mask (entries cb_file_full ! j) = 0"
    by (simp_all add: cb_file_over_def cb_file_full_def RULE_MAX_def cb_line_1_def)
  from capacity_caps [of cb_file_over prfx_file_1 trace_file_over]
    capacity_caps [of cb_file_1 prfx_file_1 trace_file_1]
    capacity_caps [of cb_file_full prfx_file_1 trace_file_full] l m u
  show ?thesis by simp
qed

text \<open>
  The claim as stated fails for a file of exactly \<open>RULE_MAX\<close> well-formed rule lines after
  which unread input remains: the loop is entered once more and stops with the capacity
  diagnostic.
\<close>

theorem capacity_caps_counterexample:
  "length (entries cb_file_full) \<le> RULE_MAX \<and> load_cb_rules cb_file_full = Inl TooManyRules"
proof -
  have "scan_list RULE_MAX TooManyRules IllegalRuleFormat cb_rule (entries cb_file_full)
          (unread cb_file_full) 0 [] = Inl TooManyRules"
    by (rule scan_list_too_many)
       (simp_all add: cb_file_full_def RULE_MAX_def cb_rule_isl cb_line_1_def)
  then show ?thesis
    by (simp add: load_cb_rules_def load_loop_fopen cb_file_full_def RULE_MAX_def)
qed

text \<open>
  Claim C10. A file in which every line is well formed can still be fatal with the format
  diagnostic: when the scan of the last record does not run into the end of the file (or the
  file has no record at all), the loop condition lets one more scan happen, which fails.
\<close>

theorem feof_loop_extra_scan:
  "((\<forall>f \<in> set (entries rf). proto_mask f = 0xff \<or> proto_mask f = 0) \<and>
    length (entries rf) < RULE_MAX \<and> (unread rf \<or> entries rf = []) \<longrightarrow>
      load_cb_rules rf = Inl IllegalRuleFormat) \<and>
   ((\<forall>f \<in> set (entries pf). proto_mask f = 0xff \<or> proto_mask f = 0) \<and>
    length (entries pf) < RULE_MAX \<and> (unread pf \<or> entries pf = []) \<longrightarrow>
      load_prfx_rules pf = Inl IllegalRuleFormat) \<and>
   (length (entries tf) < PKT_MAX \<and> (unread tf \<or> entries tf = []) \<longrightarrow>
      load_trace tf = Inl IllegalPacketFormat)"
proof -
  have a: "load_cb_rules rf = Inl IllegalRuleFormat"
    if "\<forall>f \<in> set (entries rf). proto_mask f = 0xff \<or> proto_mask f = 0"
      "length (entries rf) < RULE_MAX" "unread rf \<or> entries rf = []"
    unfolding load_cb_rules_def load_loop_fopen using that
    by (intro scan_list_illegal) (simp_all add: cb_rule_isl)
  have b: "load_prfx_rules pf = Inl IllegalRuleFormat"
    if "\<forall>f \<in> set (entries pf). proto_mask f = 0xff \<or> proto_mask f = 0"
      "length (entries pf) < RULE_MAX" "unread pf \<or> entries pf = []"
    unfolding load_prfx_rules_def load_loop_fopen using that
    by (intro scan_list_illegal) (simp_all add: prfx_rule_isl)
  have c: "load_trace tf = Inl IllegalPacketFormat"
    if "length (entries tf) < PKT_MAX" "unread tf \<or> entries tf = []"
    unfolding load_trace_def load_loop_fopen using that
    by (intro scan_list_illegal) simp_all
  show ?thesis using a b c by blast
qed

theorem feof_loop_extra_scan_witness:
  "load_cb_rules cb_file_tail = Inl IllegalRuleFormat \<and>
   load_prfx_rules prfx_file_tail = Inl IllegalRuleFormat \<and>
   load_trace trace_file_tail = Inl IllegalPacketFormat \<and>
   load_cb_rules \<lparr>entries = [], unread = False\<rparr> = Inl IllegalRuleFormat \<and>
   load_prfx_rules \<lparr>entries = [], unread = False\<rparr> = Inl IllegalRuleFormat \<and>
   load_trace \<lparr>entries = [], unread = False\<rparr> = Inl IllegalPacketFormat"
proof -
  have a: "\<forall>f \<in> set (entries cb_file_tail). proto_mask f = 0xff \<or> proto_mask f = 0"
    "\<forall>f \<in> set (entries prfx_file_tail). proto_mask f = 0xff \<or> proto_mask f = 0"
    by (simp_all add: cb_file_tail_def prfx_file_tail_def cb_line_1_def cb_line_2_def
        prfx_line_1_def prfx_line_2_def)
  have l: "length (entries cb_file_tail) < RULE_MAX" "length (entries prfx_file_tail) < RULE_MAX"
    "length (entries trace_file_tail) < PKT_MAX"
    by (simp_all add: cb_file_tail_def prfx_file_tail_def trace_file_tail_def RULE_MAX_def
        PKT_MAX_def)
  have u: "unread cb_file_tail" "unread prfx_file_tail" "unread trace_file_tail"
    by (simp_all add: cb_file_tail_def prfx_file_tail_def trace_file_tail_def)
  from feof_loop_extra_scan [of cb_file_tail prfx_file_tail trace_file_tail]
    feof_loop_extra_scan [of "\<lparr>entries = [], unread = False\<rparr>"
      "\<lparr>entries = [], unread = False\<rparr>" "\<lparr>entries = [], unread = False\<rparr>"]
    a l u
  show ?thesis by (simp add: RULE_MAX_def PKT_MAX_def)
qed

subsection \<open>Throughput\<close>

lemma load_trace_length: "load_trace tf = Inr pkts \<Longrightarrow> length pkts \<le> PKT_MAX"
  unfolding load_trace_def by (rule load_loop_Inr(4))

lemma scast_count:
  assumes "n \<le> 1048576"
  shows "(scast (of_nat n :: u32) :: u64) = of_nat n"
proof -
  have "uint (of_nat n :: u32) = int n"
    using assms by (simp add: uint_nat unat_of_nat)
  moreover have "signed_take_bit 31 (int n) = int n"
    using assms by (intro signed_take_bit_int_eq_self) simp_all
  ultimately have "sint (of_nat n :: u32) = int n"
    by (simp add: sint_uint)
  then show ?thesis by (simp add: scast_eq)
qed

lemma speed_value:
  assumes "n \<le> 1048576" and "td \<noteq> 0"
  shows "sint ((scast (of_nat n :: u32) * 1000000) div (td :: u64)) = int n * 1000000 div uint td"
proof -
  let ?a = "(of_nat n :: u64) * 1000000"
  have b: "n * 1000000 < 2 ^ 64"
  proof -
    have "n * 1000000 \<le> 1048576 * 1000000" using assms(1) by simp
    also have "\<dots> < (2 :: nat) ^ 64" by simp
    finally show ?thesis .
  qed
  have "?a = of_nat (n * 1000000)" by simp
  then have "unat ?a = n * 1000000"
    using b by (simp only: unat_of_nat) simp
  then have ua: "uint ?a = int n * 1000000" by (simp add: uint_nat)
  have q: "uint (?a div td) = int n * 1000000 div uint td"
    by (simp only: uint_div ua)
  have "int n * 1000000 div uint td \<le> int n * 1000000"
  proof (cases "n = 0")
    case True
    then show ?thesis by simp
  next
    case False
    then show ?thesis by (intro int_div_le_self) simp
  qed
  also have "\<dots> \<le> 1048576 * 1000000" using assms(1) by simp
  finally have le: "uint (?a div td) \<le> 1048576 * 1000000" using q by simp
  have ge: "0 \<le> uint (?a div td)" by simp
  have "signed_take_bit 63 (uint (?a div td)) = uint (?a div td)"
  proof (rule signed_take_bit_int_eq_self)
    have "- (2 ^ 63) \<le> (0 :: int)" by simp
    then show "- (2 ^ 63) \<le> uint (?a div td)" using ge by (rule order_trans)
    have "(1048576 * 1000000 :: int) < 2 ^ 63" by simp
    with le show "uint (?a div td) < 2 ^ 63" by (rule le_less_trans)
  qed
  then have "sint (?a div td) = uint (?a div td)" by (simp add: sint_uint)
  with q show ?thesis by (simp add: scast_count [OF assms(1)])
qed

lemma timediff_value:
  fixes start stop :: timeval
  assumes "1000000 * uint (tv_sec start) + uint (tv_usec start)
             \<le> 1000000 * uint (tv_sec stop) + uint (tv_usec stop)"
    and "1000000 * uint (tv_sec stop) + uint (tv_usec stop) < 2 ^ 64"
  shows "uint (make_timediff start stop) =
           (1000000 * uint (tv_sec stop) + uint (tv_usec stop)) -
           (1000000 * uint (tv_sec start) + uint (tv_usec start))"
proof -
  have v: "uint (1000000 * s + u) = 1000000 * uint s + uint u"
    if "1000000 * uint s + uint u < 2 ^ 64" for s u :: u64
  proof -
    have "1000000 * uint s < 2 ^ 64"
      using that uint_ge_0 [of u] by linarith
    then have m: "uint (1000000 :: u64) * uint s < 2 ^ LENGTH(64)" by simp
    then have m': "uint (1000000 * s) = 1000000 * uint s"
      using uint_mult_lem [of "1000000 :: u64" s] by simp
    with that have "uint (1000000 * s) + uint u < 2 ^ LENGTH(64)" by simp
    then show ?thesis using uint_add_lem [of "1000000 * s" u] m' by simp
  qed
  have a: "uint (1000000 * tv_sec stop + tv_usec stop)
             = 1000000 * uint (tv_sec stop) + uint (tv_usec stop)"
    using assms(2) by (rule v)
  have b: "uint (1000000 * tv_sec start + tv_usec start)
             = 1000000 * uint (tv_sec start) + uint (tv_usec start)"
    using assms by (intro v) simp
  have "uint (1000000 * tv_sec start + tv_usec start) \<le> uint (1000000 * tv_sec stop + tv_usec stop)"
    using assms(1) a b by simp
  then have "uint (make_timediff start stop) =
      uint (1000000 * tv_sec stop + tv_usec stop) - uint (1000000 * tv_sec start + tv_usec start)"
    unfolding make_timediff_def by (simp only: uint_sub_lem [symmetric])
  then show ?thesis using a b by simp
qed

text \<open>
  Claim C8. For a loaded trace and a non-zero elapsed time, the speed the driver prints is
  the number of packets times 1,000,000 divided by the elapsed microseconds, rounded down,
  where the elapsed time is \<open>(1000000 * stop.tv_sec + stop.tv_usec) -
  (1000000 * start.tv_sec + start.tv_usec)\<close> (computed modulo \<open>2^64\<close>, and the difference as
  a number when the stop time is not before the start time).
\<close>

theorem searching_speed_report:
  assumes "load_trace tf = Inr pkts" and "make_timediff start stop \<noteq> 0"
  shows
    "make_timediff start stop =
       (1000000 * tv_sec stop + tv_usec stop) - (1000000 * tv_sec start + tv_usec start) \<and>
     (\<exists>pps. searching_speed (trace_num pkts) (make_timediff start stop) = Inr pps \<and>
            sint pps = int (length pkts) * 1000000 div uint (make_timediff start stop)) \<and>
     (1000000 * uint (tv_sec start) + uint (tv_usec start)
        \<le> 1000000 * uint (tv_sec stop) + uint (tv_usec stop) \<and>
      1000000 * uint (tv_sec stop) + uint (tv_usec stop) < 2 ^ 64 \<longrightarrow>
      uint (make_timediff start stop) =
        (1000000 * uint (tv_sec stop) + uint (tv_usec stop)) -
        (1000000 * uint (tv_sec start) + uint (tv_usec start)))"
proof -
  have n: "length pkts \<le> 1048576"
    using load_trace_length [OF assms(1)] by (simp add: PKT_MAX_def)
  have "searching_speed (trace_num pkts) (make_timediff start stop) =
          Inr ((scast (of_nat (length pkts) :: u32) * 1000000) div make_timediff start stop)"
    using assms(2) by (simp add: searching_speed_def trace_num_def)
  moreover note speed_value [OF n assms(2)]
  ultimately have "\<exists>pps. searching_speed (trace_num pkts) (make_timediff start stop) = Inr pps \<and>
            sint pps = int (length pkts) * 1000000 div uint (make_timediff start stop)"
    by simp
  moreover have "make_timediff start stop =
       (1000000 * tv_sec stop + tv_usec stop) - (1000000 * tv_sec start + tv_usec start)"
    by (simp add: make_timediff_def)
  ultimately show ?thesis using timediff_value [of start stop] by blast
qed

theorem searching_speed_report_witness:
  "load_trace trace_file_1 = Inr trace_1 \<and>
   make_timediff \<lparr>tv_sec = 100, tv_usec = 999990\<rparr> \<lparr>tv_sec = 101, tv_usec = 15\<rparr> = 25 \<and>
   (\<exists>pps. searching_speed (trace_num trace_1) 25 = Inr pps \<and> sint pps = 40000)"
proof -
  have h: "load_trace trace_file_1 = Inr trace_1" by (simp add: trace_eval)
  have t: "make_timediff \<lparr>tv_sec = 100, tv_usec = 999990\<rparr> \<lparr>tv_sec = 101, tv_usec = 15\<rparr> = 25"
    by (simp add: make_timediff_def)
  then have nz: "make_timediff \<lparr>tv_sec = 100, tv_usec = 999990\<rparr> \<lparr>tv_sec = 101, tv_usec = 15\<rparr> \<noteq> 0"
    by simp
  from searching_speed_report [OF h nz] h t
  show ?thesis by (simp add: trace_1_def)
qed

subsection \<open>HyperSplit search\<close>

lemma find_sorted_least:
  "sorted (map f xs) \<Longrightarrow> find P xs = Some x \<Longrightarrow>
   x \<in> set xs \<and> P x \<and> (\<forall>y \<in> set xs. P y \<longrightarrow> f x \<le> f y)"
proof (induction xs)
  case Nil
  then show ?case by simp
next
  case (Cons a xs)
  show ?case
  proof (cases "P a")
    case True
    with Cons.prems show ?thesis by auto
  next
    case False
    with Cons.prems have "find P xs = Some x" and "sorted (map f xs)" by simp_all
    with Cons.IH have "x \<in> set xs \<and> P x \<and> (\<forall>y \<in> set xs. P y \<longrightarrow> f x \<le> f y)" by simp
    with False show ?thesis by auto
  qed
qed

lemma find_filter_imp:
  "(\<And>x. P x \<Longrightarrow> Q x) \<Longrightarrow> find P (filter Q xs) = find P xs"
  by (induction xs) auto

lemma fold_better_split_mem: "fold better_split cs c \<in> set (c # cs)"
proof (induction cs arbitrary: c)
  case Nil
  then show ?case by simp
next
  case (Cons a cs)
  have "better_split a c = a \<or> better_split a c = c"
    by (auto simp add: better_split_def split: prod.splits)
  with Cons.IH [of "better_split a c"] show ?case by auto
qed

lemma best_split_dim:
  assumes "best_split S C = Some s"
  shows "fst (snd s) < DIM_MAX"
proof -
  let ?cands = "concat (map (\<lambda>d. map (\<lambda>t. (cost S d t, d, t)) (candidates S d C)) [0..<DIM_MAX])"
  from assms obtain c cs where cs: "?cands = c # cs" and s: "s = fold better_split cs c"
    by (auto simp add: best_split_def split: list.splits)
  have "s \<in> set ?cands" using fold_better_split_mem [of cs c] cs s by simp
  then show ?thesis by auto
qed

lemma r_matches_dim:
  "r_matches r p \<Longrightarrow> d < DIM_MAX \<Longrightarrow> r_low r d \<le> pkt_val p d \<and> pkt_val p d \<le> r_high r d"
  by (simp add: r_matches_def list_all_iff)

lemma hs_lookup_build_node:
  "hs_lookup (hs_build_node max_depth depth S C) p =
     find (\<lambda>r. r_matches r p) (sort_key r_priority S)"
proof (induction max_depth depth S C rule: hs_build_node.induct)
  case (1 max_depth depth S C)
  show ?case
  proof (cases "length S \<le> BINTH \<or> depth > max_depth")
    case True
    then show ?thesis by (simp add: hs_build_node.simps [of max_depth depth S C])
  next
    case nl: False
    show ?thesis
    proof (cases "best_split S C")
      case None
      with nl show ?thesis by (simp add: hs_build_node.simps [of max_depth depth S C])
    next
      case (Some s)
      let ?d = "fst (snd s)" and ?t = "snd (snd s)"
      let ?L = "filter (\<lambda>r. r_low r ?d \<le> ?t) S" and ?R = "filter (\<lambda>r. r_high r ?d > ?t) S"
      have d: "?d < DIM_MAX" using Some by (rule best_split_dim)
      show ?thesis
      proof (cases "length ?L = length S \<and> length ?R = length S")
        case True
        with nl Some show ?thesis by (simp add: hs_build_node.simps [of max_depth depth S C])
      next
        case np: False
        have l: "hs_lookup (hs_build_node max_depth (depth + 1) ?L
                   (C[?d := (fst (C ! ?d), ?t)])) p =
                 find (\<lambda>r. r_matches r p) (sort_key r_priority ?L)"
          using nl Some np by (rule "1.IH"(1))
        have r: "hs_lookup (hs_build_node max_depth (depth + 1) ?R
                   (C[?d := (?t + 1, snd (C ! ?d))])) p =
                 find (\<lambda>r. r_matches r p) (sort_key r_priority ?R)"
          using nl Some np by (rule "1.IH"(2))
        show ?thesis
        proof (cases "pkt_val p ?d \<le> ?t")
          case True
          have "find (\<lambda>r. r_matches r p) (sort_key r_priority ?L) =
                find (\<lambda>r. r_matches r p) (filter (\<lambda>r. r_low r ?d \<le> ?t) (sort_key r_priority S))"
            by (simp add: filter_sort)
          also have "\<dots> = find (\<lambda>r. r_matches r p) (sort_key r_priority S)"
          proof (rule find_filter_imp)
            fix x assume "r_matches x p"
            from r_matches_dim [OF this d] True show "r_low x ?d \<le> ?t" by simp
          qed
          finally show ?thesis
            using nl Some np True l by (simp add: hs_build_node.simps [of max_depth depth S C])
        next
          case False
          have "find (\<lambda>r. r_matches r p) (sort_key r_priority ?R) =
                find (\<lambda>r. r_matches r p) (filter (\<lambda>r. r_high r ?d > ?t) (sort_key r_priority S))"
            by (simp add: filter_sort)
          also have "\<dots> = find (\<lambda>r. r_matches r p) (sort_key r_priority S)"
          proof (rule find_filter_imp)
            fix x assume "r_matches x p"
            from r_matches_dim [OF this d] False show "r_high x ?d > ?t" by simp
          qed
          finally show ?thesis
            using nl Some np False r by (simp add: hs_build_node.simps [of max_depth depth S C])
        qed
      qed
    qed
  qed
qed

lemma hs_lookup_best:
  "(hs_lookup (hs_build max_depth rs) p = None \<longleftrightarrow> \<not> (\<exists>r \<in> set rs. r_matches r p)) \<and>
   (\<forall>r. hs_lookup (hs_build max_depth rs) p = Some r \<longrightarrow>
        r \<in> set rs \<and> r_matches r p \<and>
        (\<forall>r' \<in> set rs. r_matches r' p \<longrightarrow> r_priority r \<le> r_priority r'))"
proof -
  have e: "hs_lookup (hs_build max_depth rs) p = find (\<lambda>r. r_matches r p) (sort_key r_priority rs)"
    by (simp add: hs_build_def hs_lookup_build_node)
  have s: "sorted (map r_priority (sort_key r_priority rs))" by simp
  have "\<forall>r. find (\<lambda>r. r_matches r p) (sort_key r_priority rs) = Some r \<longrightarrow>
        r \<in> set rs \<and> r_matches r p \<and>
        (\<forall>r' \<in> set rs. r_matches r' p \<longrightarrow> r_priority r \<le> r_priority r')"
    using find_sorted_least [OF s, of "\<lambda>r. r_matches r p"] by simp
  moreover have "find (\<lambda>r. r_matches r p) (sort_key r_priority rs) = None \<longleftrightarrow>
        \<not> (\<exists>r \<in> set rs. r_matches r p)"
    by (auto simp add: find_None_iff)
  ultimately show ?thesis by (simp only: e) 
qed

subsection \<open>Tuple space search\<close>

lemma p_matches_key:
  "plen r = L \<Longrightarrow> p_matches r p \<longleftrightarrow> masked_key L (pdim r) = masked_key L (val p)"
  by (auto simp add: p_matches_def masked_key_def list_all_iff pkt_val_def)

lemma bucket_lookup_best:
  assumes "bucket_inv h b"
  shows "p_best (bucket_rules b) p (bucket_lookup h b p)"
proof -
  let ?k = "masked_key (fst b) (val p)"
  let ?c = "snd b (h ?k)"
  let ?P = "\<lambda>r. masked_key (fst b) (pdim r) = ?k"
  have srt: "sorted (map p_priority ?c)" using assms by (simp add: bucket_inv_def)
  have len: "plen r = fst b" if "r \<in> bucket_rules b" for r
    using that assms by (auto simp add: bucket_inv_def bucket_rules_def)
  have chain: "r \<in> set ?c" if "r \<in> bucket_rules b" "p_matches r p" for r
  proof -
    from that(1) obtain hv where hv: "r \<in> set (snd b hv)" by (auto simp add: bucket_rules_def)
    with assms have "h (masked_key (fst b) (pdim r)) = hv" by (simp add: bucket_inv_def)
    moreover have "masked_key (fst b) (pdim r) = ?k"
      using that(2) p_matches_key [OF len [OF that(1)]] by simp
    ultimately show ?thesis using hv by simp
  qed
  have sub: "set ?c \<subseteq> bucket_rules b" by (auto simp add: bucket_rules_def)
  have m: "p_matches r p \<longleftrightarrow> ?P r" if "r \<in> bucket_rules b" for r
    using p_matches_key [OF len [OF that]] by simp
  have none: "bucket_lookup h b p = None \<longleftrightarrow> \<not> (\<exists>r \<in> bucket_rules b. p_matches r p)"
  proof
    assume "bucket_lookup h b p = None"
    then have "\<forall>r \<in> set ?c. \<not> ?P r" by (auto simp add: bucket_lookup_def find_None_iff)
    then show "\<not> (\<exists>r \<in> bucket_rules b. p_matches r p)" using chain m by blast
  next
    assume "\<not> (\<exists>r \<in> bucket_rules b. p_matches r p)"
    then have "\<forall>r \<in> set ?c. \<not> ?P r" using sub m by blast
    then show "bucket_lookup h b p = None" by (auto simp add: bucket_lookup_def find_None_iff)
  qed
  have some: "r \<in> bucket_rules b \<and> p_matches r p \<and>
              (\<forall>r' \<in> bucket_rules b. p_matches r' p \<longrightarrow> p_priority r \<le> p_priority r')"
    if "bucket_lookup h b p = Some r" for r
  proof -
    from that have "find ?P ?c = Some r" by (simp add: bucket_lookup_def)
    from find_sorted_least [OF srt this]
    have a: "r \<in> set ?c" "?P r" "\<forall>y \<in> set ?c. ?P y \<longrightarrow> p_priority r \<le> p_priority y" by simp_all
    from a(1) sub have rb: "r \<in> bucket_rules b" by blast
    moreover have "p_matches r p" using m [OF rb] a(2) by simp
    moreover have "\<forall>r' \<in> bucket_rules b. p_matches r' p \<longrightarrow> p_priority r \<le> p_priority r'"
      using a(3) chain m by blast
    ultimately show ?thesis by simp
  qed
  show ?thesis unfolding p_best_def using none some by blast
qed

lemma better_best:
  assumes "p_best A p a" and "p_best B p b"
  shows "p_best (A \<union> B) p (better a b)"
proof (cases b)
  case None
  with assms show ?thesis by (auto simp add: p_best_def better_def)
next
  case sb: (Some y)
  show ?thesis
  proof (cases a)
    case None
    with sb assms show ?thesis by (auto simp add: p_best_def better_def)
  next
    case (Some x)
    from assms Some have x: "x \<in> A" "p_matches x p"
      "\<forall>r' \<in> A. p_matches r' p \<longrightarrow> p_priority x \<le> p_priority r'"
      by (simp_all add: p_best_def)
    from assms sb have y: "y \<in> B" "p_matches y p"
      "\<forall>r' \<in> B. p_matches r' p \<longrightarrow> p_priority y \<le> p_priority r'"
      by (simp_all add: p_best_def)
    show ?thesis
    proof (cases "p_priority y < p_priority x")
      case True
      then have "better a b = Some y" using Some sb by (simp add: better_def)
      moreover have "\<forall>r' \<in> A \<union> B. p_matches r' p \<longrightarrow> p_priority y \<le> p_priority r'"
        using x(3) y(3) True by fastforce
      ultimately show ?thesis using y by (auto simp add: p_best_def)
    next
      case False
      then have "better a b = Some x" using Some sb by (simp add: better_def)
      moreover have "\<forall>r' \<in> A \<union> B. p_matches r' p \<longrightarrow> p_priority x \<le> p_priority r'"
        using x(3) y(3) False by fastforce
      ultimately show ?thesis using x by (auto simp add: p_best_def)
    qed
  qed
qed

lemma fold_better_best:
  "tss_inv h bs \<Longrightarrow> p_best A p acc \<Longrightarrow>
   p_best (A \<union> tss_rules bs) p (fold (\<lambda>b best. better best (bucket_lookup h b p)) bs acc)"
proof (induction bs arbitrary: A acc)
  case Nil
  then show ?case by (simp add: tss_rules_def)
next
  case (Cons b bs)
  from Cons.prems(1) have ib: "bucket_inv h b" and ibs: "tss_inv h bs"
    by (simp_all add: tss_inv_def)
  have "p_best (A \<union> bucket_rules b) p (better acc (bucket_lookup h b p))"
    using Cons.prems(2) bucket_lookup_best [OF ib] by (rule better_best)
  from Cons.IH [OF ibs this]
  have "p_best ((A \<union> bucket_rules b) \<union> tss_rules bs) p
          (fold (\<lambda>b best. better best (bucket_lookup h b p)) bs (better acc (bucket_lookup h b p)))" .
  moreover have "(A \<union> bucket_rules b) \<union> tss_rules bs = A \<union> tss_rules (b # bs)"
    by (auto simp add: tss_rules_def)
  ultimately show ?case by simp
qed

lemma tss_lookup_best: "tss_inv h idx \<Longrightarrow> p_best (tss_rules idx) p (tss_lookup h idx p)"
proof -
  assume i: "tss_inv h idx"
  have "p_best {} p None" by (simp add: p_best_def)
  from fold_better_best [OF i this] show ?thesis by (simp add: tss_lookup_def)
qed

lemma tss_insert_inv: "tss_inv h idx \<Longrightarrow> tss_inv h (tss_insert h r idx)"
proof (induction idx)
  case Nil
  then show ?case by (simp add: tss_inv_def bucket_inv_def)
next
  case (Cons b bs)
  obtain L tbl where b: "b = (L, tbl)" by (cases b)
  from Cons.prems have ib: "bucket_inv h (L, tbl)" and ibs: "tss_inv h bs"
    by (simp_all add: tss_inv_def b)
  show ?case
  proof (cases "L = plen r")
    case True
    let ?hv = "h (masked_key L (pdim r))"
    have "bucket_inv h (L, tbl(?hv := insort_key p_priority r (tbl ?hv)))"
      using ib True by (auto simp add: bucket_inv_def sorted_insort_key set_insort_key)
    with ibs True show ?thesis by (simp add: tss_inv_def b)
  next
    case False
    with Cons.IH [OF ibs] ib show ?thesis by (simp add: tss_inv_def b)
  qed
qed

lemma tss_insert_rules: "tss_rules (tss_insert h r idx) = insert r (tss_rules idx)"
proof (induction idx)
  case Nil
  then show ?case by (auto simp add: tss_rules_def bucket_rules_def split: if_splits)
next
  case (Cons b bs)
  obtain L tbl where b: "b = (L, tbl)" by (cases b)
  show ?case
  proof (cases "L = plen r")
    case True
    let ?hv = "h (masked_key L (pdim r))"
    let ?tbl = "tbl(?hv := insort_key p_priority r (tbl ?hv))"
    have "bucket_rules (L, ?tbl) = insert r (bucket_rules (L, tbl))"
    proof (intro set_eqI iffI)
      fix x assume "x \<in> bucket_rules (L, ?tbl)"
      then obtain hv where "x \<in> set (?tbl hv)" by (auto simp add: bucket_rules_def)
      then have "x = r \<or> x \<in> set (tbl hv)"
        by (cases "hv = ?hv") (auto simp add: set_insort_key)
      then show "x \<in> insert r (bucket_rules (L, tbl))" by (auto simp add: bucket_rules_def)
    next
      fix x assume "x \<in> insert r (bucket_rules (L, tbl))"
      then have "x = r \<or> (\<exists>hv. x \<in> set (tbl hv))" by (auto simp add: bucket_rules_def)
      then show "x \<in> bucket_rules (L, ?tbl)"
      proof
        assume "x = r"
        then have "x \<in> set (?tbl ?hv)" by (simp add: set_insort_key)
        then show ?thesis unfolding bucket_rules_def by (simp only: snd_conv mem_Collect_eq) blast
      next
        assume "\<exists>hv. x \<in> set (tbl hv)"
        then obtain hv where "x \<in> set (tbl hv)" ..
        then have "x \<in> set (?tbl hv)" by (auto simp add: set_insort_key)
        then show ?thesis unfolding bucket_rules_def by (simp only: snd_conv mem_Collect_eq) blast
      qed
    qed
    with True show ?thesis by (simp add: tss_rules_def b)
  next
    case False
    with Cons.IH show ?thesis by (auto simp add: tss_rules_def b)
  qed
qed

lemma fold_tss_insert:
  "tss_inv h idx \<Longrightarrow>
   tss_inv h (fold (tss_insert h) rs idx) \<and>
   tss_rules (fold (tss_insert h) rs idx) = tss_rules idx \<union> set rs"
proof (induction rs arbitrary: idx)
  case Nil
  then show ?case by simp
next
  case (Cons r rs)
  from Cons.IH [OF tss_insert_inv [OF Cons.prems, of r]]
  show ?case by (auto simp add: tss_insert_rules)
qed

lemma tss_build_best: "p_best (set rs) p (tss_lookup h (tss_build h rs) p)"
proof -
  have e: "tss_inv h []" by (simp add: tss_inv_def)
  from fold_tss_insert [OF e, of rs]
  have "tss_inv h (tss_build h rs)" and "tss_rules (tss_build h rs) = set rs"
    by (simp_all add: tss_build_def tss_rules_def)
  with tss_lookup_best [of h "tss_build h rs" p] show ?thesis by simp
qed


subsection \<open>Stability of the search under insertion\<close>











lemma upt_DIM_MAX: "[0..<DIM_MAX] = [0, 1, 2, 3, 4]"
  by (simp add: DIM_MAX_def upt_rec)

lemmas match_eval = r_matches_def p_matches_def upt_DIM_MAX r_low_def r_high_def pkt_val_def
  masked_def W_def hs_rule_a_def hs_rule_b_def pkt_with_sport_def pkt_with_proto_def
  tss_rule_a_def tss_rule_b_def tss_rule_new_def tss_rule_udp_def tss_rule_any_def r_priority_def p_priority_def

subsection \<open>Search results of the engines\<close>

text \<open>
  Claim C1. For every packet and for both engines, the search on the index built from a rule
  set returns a rule of the set that matches the packet and whose priority is the smallest
  among all rules of the set that match it, and returns no match exactly when no rule of the
  set matches.
\<close>

theorem search_returns_best_match:
  "(hs_lookup (hs_build max_depth rs) p = None \<longleftrightarrow> \<not> (\<exists>r \<in> set rs. r_matches r p)) \<and>
   (\<forall>r. hs_lookup (hs_build max_depth rs) p = Some r \<longrightarrow>
        r \<in> set rs \<and> r_matches r p \<and>
        (\<forall>r' \<in> set rs. r_matches r' p \<longrightarrow> r_priority r \<le> r_priority r')) \<and>
   (tss_lookup h (tss_build h prs) q = None \<longleftrightarrow> \<not> (\<exists>r \<in> set prs. p_matches r q)) \<and>
   (\<forall>r. tss_lookup h (tss_build h prs) q = Some r \<longrightarrow>
        r \<in> set prs \<and> p_matches r q \<and>
        (\<forall>r' \<in> set prs. p_matches r' q \<longrightarrow> p_priority r \<le> p_priority r'))"
proof -
  note hs = hs_lookup_best [of max_depth rs p]
  have tss: "p_best (set prs) q (tss_lookup h (tss_build h prs) q)" by (rule tss_build_best)
  show ?thesis
    using hs tss unfolding p_best_def by blast
qed

theorem search_returns_best_match_witness:
  "hs_lookup (hs_build 16 [hs_rule_b, hs_rule_a]) (pkt_with_sport 1750) = Some hs_rule_a \<and>
   hs_lookup (hs_build 16 [hs_rule_b, hs_rule_a]) (pkt_with_sport 2100) = Some hs_rule_b \<and>
   hs_lookup (hs_build 16 [hs_rule_b, hs_rule_a]) (pkt_with_sport 500) = None \<and>
   tss_lookup example_hash (tss_build example_hash [tss_rule_a, tss_rule_b]) (pkt_with_proto 6)
     = Some tss_rule_a \<and>
   tss_lookup example_hash (tss_build example_hash [tss_rule_a, tss_rule_b]) (pkt_with_proto 17)
     = Some tss_rule_b"
proof -
  let ?t = "hs_build 16 [hs_rule_b, hs_rule_a]"
  let ?i = "tss_build example_hash [tss_rule_a, tss_rule_b]"
  have m: "r_matches hs_rule_a (pkt_with_sport 1750)" "r_matches hs_rule_b (pkt_with_sport 1750)"
    "\<not> r_matches hs_rule_a (pkt_with_sport 2100)" "r_matches hs_rule_b (pkt_with_sport 2100)"
    "\<not> r_matches hs_rule_a (pkt_with_sport 500)" "\<not> r_matches hs_rule_b (pkt_with_sport 500)"
    by (simp_all add: match_eval)
  have n: "p_matches tss_rule_a (pkt_with_proto 6)" "p_matches tss_rule_b (pkt_with_proto 6)"
    "\<not> p_matches tss_rule_a (pkt_with_proto 17)" "p_matches tss_rule_b (pkt_with_proto 17)"
    by (simp_all add: match_eval)
  have pr: "r_priority hs_rule_a = 0" "r_priority hs_rule_b = 1"
    "p_priority tss_rule_a = 0" "p_priority tss_rule_b = 1"
    by (simp_all add: match_eval)
  note a = search_returns_best_match [of 16 "[hs_rule_b, hs_rule_a]" "pkt_with_sport 1750"
      example_hash "[tss_rule_a, tss_rule_b]" "pkt_with_proto 6"]
  note b = search_returns_best_match [of 16 "[hs_rule_b, hs_rule_a]" "pkt_with_sport 2100"
      example_hash "[tss_rule_a, tss_rule_b]" "pkt_with_proto 17"]
  note c = search_returns_best_match [of 16 "[hs_rule_b, hs_rule_a]" "pkt_with_sport 500"
      example_hash "[tss_rule_a, tss_rule_b]" "pkt_with_proto 17"]
  have 1: "hs_lookup ?t (pkt_with_sport 1750) = Some hs_rule_a"
  proof -
    from a m obtain r where r: "hs_lookup ?t (pkt_with_sport 1750) = Some r" by auto
    with a have "r \<in> set [hs_rule_b, hs_rule_a]" "r_priority r \<le> r_priority hs_rule_a"
      using m by auto
    with pr have "r = hs_rule_a" by auto
    with r show ?thesis by simp
  qed
  have 2: "hs_lookup ?t (pkt_with_sport 2100) = Some hs_rule_b"
  proof -
    from b m obtain r where r: "hs_lookup ?t (pkt_with_sport 2100) = Some r" by auto
    with b have "r \<in> set [hs_rule_b, hs_rule_a]" "r_matches r (pkt_with_sport 2100)" by auto
    with m have "r = hs_rule_b" by auto
    with r show ?thesis by simp
  qed
  have 3: "hs_lookup ?t (pkt_with_sport 500) = None" using c m by simp
  have 4: "tss_lookup example_hash ?i (pkt_with_proto 6) = Some tss_rule_a"
  proof -
    from a n obtain r where r: "tss_lookup example_hash ?i (pkt_with_proto 6) = Some r" by auto
    with a have "r \<in> set [tss_rule_a, tss_rule_b]" "p_priority r \<le> p_priority tss_rule_a"
      using n by auto
    with pr have "r = tss_rule_a" by auto
    with r show ?thesis by simp
  qed
  have 5: "tss_lookup example_hash ?i (pkt_with_proto 17) = Some tss_rule_b"
  proof -
    from b n obtain r where r: "tss_lookup example_hash ?i (pkt_with_proto 17) = Some r" by auto
    with b have "r \<in> set [tss_rule_a, tss_rule_b]" "p_matches r (pkt_with_proto 17)" by auto
    with n have "r = tss_rule_b" by auto
    with r show ?thesis by simp
  qed
  from 1 2 3 4 5 show ?thesis by simp
qed




end
